theory Spec2Isabelle
  imports Complex_Main "HOL-Library.Char_ord" "HOL-Library.List_Lexorder" "HOL-Library.Log_Nat"
begin

section \<open>JavaScript values used by \<open>src/main.js\<close>\<close>

subsection \<open>Strings\<close>

text \<open>
  A JavaScript string is a sequence of UTF-16 code units and \<open>.length\<close> counts code units.
  A string is therefore a list of code units, each a natural number; \<open>ascii\<close> turns an
  Isabelle literal into such a list. The default \<open>Array.prototype.sort()\<close> orders strings
  by code units, which is the lexicographic order on these lists.
\<close>

type_synonym jsstring = "nat list"

definition ascii :: "string \<Rightarrow> jsstring" where
  "ascii s = map of_char s"

text \<open>The character classes of the regular expressions: \<open>\s\<close> and \<open>\w\<close> (no unicode flag).\<close>

definition is_space :: "nat \<Rightarrow> bool" where
  "is_space c \<longleftrightarrow>
     c \<in> {9, 10, 11, 12, 13, 32, 160, 5760, 8232, 8233, 8239, 8287, 12288, 65279}
     \<or> (8192 \<le> c \<and> c \<le> 8202)"

definition is_word :: "nat \<Rightarrow> bool" where
  "is_word c \<longleftrightarrow> (48 \<le> c \<and> c \<le> 57) \<or> (65 \<le> c \<and> c \<le> 90) \<or> c = 95 \<or> (97 \<le> c \<and> c \<le> 122)"

text \<open>\<open>toLowerCase\<close> on a code unit matched by \<open>\w\<close>: only \<open>A\<close>..\<open>Z\<close> change.\<close>

definition to_lower :: "nat \<Rightarrow> nat" where
  "to_lower c = (if 65 \<le> c \<and> c \<le> 90 then c + 32 else c)"

definition toLowerCase :: "jsstring \<Rightarrow> jsstring" where
  "toLowerCase s = map to_lower s"

text \<open>
  \<open>content.replace(/<[^>]*>/g, '')\<close>: an opening angle bracket (code unit 60) matches
  together with everything up to the next closing angle bracket (62) and is removed; an
  opening bracket with no closing bracket after it stays.
\<close>

function strip_tags :: "jsstring \<Rightarrow> jsstring" where
  "strip_tags [] = []"
| "strip_tags (c # cs) =
     (if c = 60 \<and> 62 \<in> set cs then strip_tags (tl (dropWhile (\<lambda>d. d \<noteq> 62) cs))
      else c # strip_tags cs)"
  by pat_completeness auto
termination
  by (relation "measure length")
     (auto simp: less_Suc_eq_le intro: le_trans [OF diff_le_self length_dropWhile_le])

text \<open>
  The global matches of \<open>/p\w+/g\<close> for a one-character prefix \<open>p\<close>, as the captured
  words: a match needs at least one word character after \<open>p\<close>, takes all of them, and the
  search goes on behind the match.
\<close>

function word_matches :: "nat \<Rightarrow> jsstring \<Rightarrow> jsstring list" where
  "word_matches p [] = []"
| "word_matches p (c # cs) =
     (if c = p \<and> takeWhile is_word cs \<noteq> []
      then takeWhile is_word cs # word_matches p (dropWhile is_word cs)
      else word_matches p cs)"
  by pat_completeness auto
termination
  by (relation "measure (\<lambda>(p, s). length s)")
     (auto simp: less_Suc_eq_le length_dropWhile_le)

text \<open>\<open>/#(\w+)/g\<close> with \<open>match[1].toLowerCase()\<close>, and \<open>text.match(/@\w+/g)\<close>.\<close>

definition hashtags_of :: "jsstring \<Rightarrow> jsstring list" where
  "hashtags_of text = map toLowerCase (word_matches 35 text)"

definition mention_count :: "jsstring \<Rightarrow> nat" where
  "mention_count text = length (word_matches 64 text)"

text \<open>
  \<open>text.match(/https?:\/\/[^\s]+/g)\<close>: \<open>http\<close>, an optional \<open>s\<close>, \<open>://\<close> and at least one
  character that is not white space; the match takes all of them.
\<close>

definition after_scheme :: "jsstring \<Rightarrow> jsstring option" where
  "after_scheme s =
     (if take 8 s = ascii ''https://'' \<and> drop 8 s \<noteq> [] \<and> \<not> is_space (hd (drop 8 s))
        then Some (drop 8 s)
      else if take 7 s = ascii ''http://'' \<and> drop 7 s \<noteq> [] \<and> \<not> is_space (hd (drop 7 s))
        then Some (drop 7 s)
      else None)"

lemma after_scheme_shorter: "after_scheme s = Some r \<Longrightarrow> length r < length s"
  by (auto simp: after_scheme_def split: if_splits)

function link_count :: "jsstring \<Rightarrow> nat" where
  "link_count [] = 0"
| "link_count (c # cs) =
     (case after_scheme (c # cs) of
        Some r \<Rightarrow> Suc (link_count (dropWhile (\<lambda>d. \<not> is_space d) r))
      | None \<Rightarrow> link_count cs)"
  by pat_completeness auto
termination
  by (relation "measure length")
     (auto dest!: after_scheme_shorter
           intro: le_less_trans [OF length_dropWhile_le])

text \<open>
  \<open>text.trim().split(/\s+/).filter(w => w.length > 0)\<close>. \<open>split\<close> cuts at every maximal
  run of white space and returns the pieces, the empty ones too (\<open>"".split(/\s+/)\<close> is
  \<open>[""]\<close>); the filter then drops the empty pieces.
\<close>

definition trim :: "jsstring \<Rightarrow> jsstring" where
  "trim s = rev (dropWhile is_space (rev (dropWhile is_space s)))"

function split_ws :: "jsstring \<Rightarrow> jsstring list" where
  "split_ws s =
     (let w = takeWhile (\<lambda>d. \<not> is_space d) s; r = dropWhile (\<lambda>d. \<not> is_space d) s
      in if r = [] then [w] else w # split_ws (dropWhile is_space (tl r)))"
  by pat_completeness auto
termination
proof (relation "measure length", goal_cases)
  case 1
  show ?case by simp
next
  case (2 s w r)
  have "length (dropWhile is_space (tl r)) \<le> length (tl r)"
    by (rule length_dropWhile_le)
  moreover from 2 have "length (tl r) < length r" by simp
  moreover from 2 have "length r \<le> length s" by (simp add: length_dropWhile_le)
  ultimately show ?case by simp
qed

declare split_ws.simps [simp del]

definition words_of :: "jsstring \<Rightarrow> jsstring list" where
  "words_of text = filter (\<lambda>w. length w > 0) (split_ws (trim text))"

subsection \<open>Numbers\<close>

text \<open>
  Counters and lengths are integers far below \<open>2^53\<close>, where JavaScript's arithmetic is
  exact: they are natural numbers here. The values that leave the integers are the results
  of \<open>/\<close> and \<open>*\<close> and the initial \<open>Infinity\<close> of \<open>shortestToot\<close>: a \<open>jsnum\<close> is a finite
  number, \<open>Infinity\<close> or \<open>NaN\<close>.
\<close>

datatype jsnum = Num rat | Infinity | NaN

text \<open>
  Every finite result of \<open>/\<close> and \<open>*\<close> is rounded to the nearest IEEE 754 binary64 number,
  ties to even: \<open>fl\<close>. With \<open>pow2 e \<le> x < pow2 (e + 1)\<close> the binary64 numbers around \<open>x\<close> are
  the multiples of \<open>pow2 (e - 52)\<close>. (The exponent is not bounded: no value of this program
  comes near the overflow or the subnormal range.)
\<close>

definition pow2 :: "int \<Rightarrow> rat" where
  "pow2 e = (if 0 \<le> e then 2 ^ nat e else 1 / 2 ^ nat (- e))"

definition binade :: "rat \<Rightarrow> int" where
  "binade x =
     (let e0 = bitlen (fst (quotient_of x)) - bitlen (snd (quotient_of x))
      in if pow2 e0 \<le> x then e0 else e0 - 1)"

definition round_even :: "rat \<Rightarrow> int" where
  "round_even q =
     (let n = \<lfloor>q\<rfloor>; r = q - of_int n
      in if r < 1 / 2 then n else if 1 / 2 < r then n + 1 else if even n then n else n + 1)"

definition fl :: "rat \<Rightarrow> rat" where
  "fl x =
     (if x = 0 then 0
      else let u = pow2 (binade \<bar>x\<bar> - 52)
           in sgn x * of_int (round_even (\<bar>x\<bar> / u)) * u)"

text \<open>\<open>a / b\<close> for two counters: \<open>0 / 0\<close> is \<open>NaN\<close>, \<open>a / 0\<close> is \<open>Infinity\<close> for \<open>a > 0\<close>.\<close>

definition js_div :: "nat \<Rightarrow> nat \<Rightarrow> jsnum" where
  "js_div a b =
     (if b = 0 then (if a = 0 then NaN else Infinity)
      else Num (fl (of_nat a / of_nat b)))"

text \<open>\<open>x * k\<close> for a positive integer constant \<open>k\<close>.\<close>

definition js_times :: "jsnum \<Rightarrow> nat \<Rightarrow> jsnum" where
  "js_times x k = (case x of Num r \<Rightarrow> Num (fl (r * of_nat k)) | Infinity \<Rightarrow> Infinity | NaN \<Rightarrow> NaN)"

text \<open>\<open>Math.round\<close>: the nearest integer, a tie going up; \<open>NaN\<close> and \<open>Infinity\<close> stay.\<close>

definition Math_round :: "jsnum \<Rightarrow> jsnum" where
  "Math_round x = (case x of Num r \<Rightarrow> Num (of_int \<lfloor>r + 1 / 2\<rfloor>) | Infinity \<Rightarrow> Infinity | NaN \<Rightarrow> NaN)"

text \<open>\<open>n < x\<close> for an integer \<open>n\<close>: false against \<open>NaN\<close>, true against \<open>Infinity\<close>.\<close>

definition js_less :: "nat \<Rightarrow> jsnum \<Rightarrow> bool" where
  "js_less n x = (case x of Num r \<Rightarrow> of_nat n < r | Infinity \<Rightarrow> True | NaN \<Rightarrow> False)"

text \<open>Decimal digits, as \<open>String(n)\<close> and \<open>padStart\<close> write them and \<open>parseInt\<close> reads them.\<close>

function dec :: "nat \<Rightarrow> jsstring" where
  "dec n = (if n < 10 then [48 + n] else dec (n div 10) @ [48 + n mod 10])"
  by pat_completeness auto
termination
  by (relation "measure id") auto

declare dec.simps [simp del]

lemma dec_digit: "n < 10 \<Longrightarrow> dec n = [48 + n]"
  by (subst dec.simps) simp

lemma dec_more: "10 \<le> n \<Longrightarrow> dec n = dec (n div 10) @ [48 + n mod 10]"
  by (subst dec.simps) simp

definition pad0 :: "nat \<Rightarrow> nat \<Rightarrow> jsstring" where
  "pad0 w n = replicate (w - length (dec n)) 48 @ dec n"

definition is_digit :: "nat \<Rightarrow> bool" where
  "is_digit c \<longleftrightarrow> 48 \<le> c \<and> c \<le> 57"

definition digits_value :: "jsstring \<Rightarrow> nat" where
  "digits_value s = foldl (\<lambda>a c. 10 * a + (c - 48)) 0 s"

definition parse_nat :: "jsstring \<Rightarrow> nat option" where
  "parse_nat s = (if s \<noteq> [] \<and> list_all is_digit s then Some (digits_value s) else None)"

subsection \<open>Dates\<close>

text \<open>
  A \<open>Date\<close> is its time value, the milliseconds since 1970-01-01T00:00Z (\<open>created_at\<close> is
  stored parsed, so only valid dates occur). Local time is the time value shifted by the
  zone offset \<open>tz\<close> of the browser, in minutes east of UTC, taken as constant (a zone
  without daylight-saving changes).
\<close>

definition msPerDay :: int where
  "msPerDay = 1000 * 60 * 60 * 24"

definition local_time :: "int \<Rightarrow> int \<Rightarrow> int" where
  "local_time tz t = t + tz * 60000"

definition local_day :: "int \<Rightarrow> int \<Rightarrow> int" where
  "local_day tz t = local_time tz t div msPerDay"

definition getHours :: "int \<Rightarrow> int \<Rightarrow> nat" where
  "getHours tz t = nat ((local_time tz t mod msPerDay) div 3600000)"

text \<open>Day number to weekday (0 is Sunday; day 0 was a Thursday) and to year, month, day.\<close>

definition week_day :: "int \<Rightarrow> nat" where
  "week_day d = nat ((d + 4) mod 7)"

definition civil_from_days :: "int \<Rightarrow> int \<times> nat \<times> nat" where
  "civil_from_days z =
     (let z1 = z + 719468;
          era = z1 div 146097;
          doe = z1 - era * 146097;
          yoe = (doe - doe div 1460 + doe div 36524 - doe div 146096) div 365;
          doy = doe - (365 * yoe + yoe div 4 - yoe div 100);
          mp = (5 * doy + 2) div 153;
          d = doy - (153 * mp + 2) div 5 + 1;
          m = (if mp < 10 then mp + 3 else mp - 9);
          y = yoe + era * 400
      in (if m \<le> 2 then y + 1 else y, nat m, nat d))"

definition days_from_civil :: "int \<Rightarrow> nat \<Rightarrow> nat \<Rightarrow> int" where
  "days_from_civil y m d =
     (let y1 = (if m \<le> 2 then y - 1 else y);
          era = y1 div 400;
          yoe = y1 - era * 400;
          mp = (if m > 2 then int m - 3 else int m + 9);
          doy = (153 * mp + 2) div 5 + int d - 1;
          doe = yoe * 365 + yoe div 4 - yoe div 100 + doy
      in era * 146097 + doe - 719468)"

text \<open>\<open>toLocaleDateString('de-DE', {weekday: 'long'})\<close> and \<open>{month: 'long'}\<close>.\<close>

definition weekdays_de :: "jsstring list" where
  "weekdays_de = [ascii ''Sonntag'', ascii ''Montag'', ascii ''Dienstag'', ascii ''Mittwoch'',
     ascii ''Donnerstag'', ascii ''Freitag'', ascii ''Samstag'']"

definition months_de :: "jsstring list" where
  "months_de = [ascii ''Januar'', ascii ''Februar'', [77, 228, 114, 122], ascii ''April'',
     ascii ''Mai'', ascii ''Juni'', ascii ''Juli'', ascii ''August'', ascii ''September'',
     ascii ''Oktober'', ascii ''November'', ascii ''Dezember'']"

definition dayName :: "int \<Rightarrow> int \<Rightarrow> jsstring" where
  "dayName tz t = weekdays_de ! week_day (local_day tz t)"

definition monthName :: "int \<Rightarrow> int \<Rightarrow> jsstring" where
  "monthName tz t = months_de ! (fst (snd (civil_from_days (local_day tz t))) - 1)"

text \<open>
  \<open>toDateString()\<close>: weekday, month, two-digit day and year (four digits at least, a minus
  sign before a negative one) of the local date, as in \<open>Wed Jan 01 2025\<close>.
\<close>

definition weekdays_en :: "jsstring list" where
  "weekdays_en = [ascii ''Sun'', ascii ''Mon'', ascii ''Tue'', ascii ''Wed'', ascii ''Thu'',
     ascii ''Fri'', ascii ''Sat'']"

definition months_en :: "jsstring list" where
  "months_en = [ascii ''Jan'', ascii ''Feb'', ascii ''Mar'', ascii ''Apr'', ascii ''May'',
     ascii ''Jun'', ascii ''Jul'', ascii ''Aug'', ascii ''Sep'', ascii ''Oct'', ascii ''Nov'',
     ascii ''Dec'']"

definition toDateString :: "int \<Rightarrow> int \<Rightarrow> jsstring" where
  "toDateString tz t =
     (let day = local_day tz t; (y, m, d) = civil_from_days day
      in weekdays_en ! week_day day @ [32] @ months_en ! (m - 1) @ [32] @ pad0 2 d @ [32]
         @ (if y < 0 then [45] else []) @ pad0 4 (nat \<bar>y\<bar>))"

text \<open>
  \<open>new Date(s)\<close> for a string in that format: local midnight of the date it names. The
  weekday is not read; \<open>None\<close> is the invalid date (time value \<open>NaN\<close>).
\<close>

fun index_of :: "'a \<Rightarrow> 'a list \<Rightarrow> nat" where
  "index_of x [] = 0"
| "index_of x (y # ys) = (if x = y then 0 else Suc (index_of x ys))"

definition month_index :: "jsstring \<Rightarrow> nat option" where
  "month_index s = (if s \<in> set months_en then Some (index_of s months_en) else None)"

text \<open>
  A string of this form is read by the engine's parser for dates that are not in ISO
  format, which takes a year below 50 as a year from 2000 on and a year from 50 to 99 as one
  from 1950 on (as V8 does).
\<close>

definition legacy_year :: "nat \<Rightarrow> int" where
  "legacy_year y = (if y < 50 then 2000 + int y else if y < 100 then 1900 + int y else int y)"

definition parse_date_string :: "int \<Rightarrow> jsstring \<Rightarrow> int option" where
  "parse_date_string tz s =
     (let ys = drop 11 s; neg = (ys \<noteq> [] \<and> hd ys = 45)
      in case (month_index (take 3 (drop 4 s)), parse_nat (take 2 (drop 8 s)),
               parse_nat (if neg then tl ys else ys)) of
           (Some m, Some d, Some y) \<Rightarrow>
             Some (days_from_civil (if neg then - int y else legacy_year y) (m + 1) d * msPerDay
                   - tz * 60000)
         | _ \<Rightarrow> None)"

subsection \<open>Objects used as counting maps\<close>

text \<open>
  \<open>hashtagMap\<close>, \<open>hourMap\<close>, \<open>dayMap\<close> and \<open>monthMap\<close> are plain objects, read back with
  \<open>Object.entries\<close>. An object lists its own keys in property order: first the keys that
  are array indices (canonical decimal numerals below \<open>2^32 - 1\<close>) in ascending numeric
  order, then all other keys in the order of their creation. The object is the list of its
  entries in that order.
\<close>

type_synonym 'v jsobj = "(jsstring \<times> 'v) list"

definition is_array_index :: "jsstring \<Rightarrow> bool" where
  "is_array_index k \<longleftrightarrow>
     k \<noteq> [] \<and> list_all is_digit k \<and> (hd k = 48 \<longrightarrow> k = [48])
     \<and> int (digits_value k) < 4294967295"

definition obj_get :: "'v jsobj \<Rightarrow> jsstring \<Rightarrow> 'v option" where
  "obj_get obj k = map_of obj k"

fun obj_update :: "'v jsobj \<Rightarrow> jsstring \<Rightarrow> 'v \<Rightarrow> 'v jsobj" where
  "obj_update [] k v = []"
| "obj_update ((k', v') # rest) k v =
     (if k' = k then (k, v) # rest else (k', v') # obj_update rest k v)"

fun obj_add_index :: "'v jsobj \<Rightarrow> jsstring \<Rightarrow> 'v \<Rightarrow> 'v jsobj" where
  "obj_add_index [] k v = [(k, v)]"
| "obj_add_index ((k', v') # rest) k v =
     (if is_array_index k' \<and> digits_value k' < digits_value k
      then (k', v') # obj_add_index rest k v
      else (k, v) # (k', v') # rest)"

definition obj_set :: "'v jsobj \<Rightarrow> jsstring \<Rightarrow> 'v \<Rightarrow> 'v jsobj" where
  "obj_set obj k v =
     (if obj_get obj k \<noteq> None then obj_update obj k v
      else if is_array_index k then obj_add_index obj k v
      else obj @ [(k, v)])"

text \<open>\<open>m[k] = (m[k] || 0) + 1\<close>, for a key that \<open>Object.prototype\<close> does not define.\<close>

definition bump :: "nat jsobj \<Rightarrow> jsstring \<Rightarrow> nat jsobj" where
  "bump m k = obj_set m k ((case obj_get m k of None \<Rightarrow> 0 | Some c \<Rightarrow> c) + 1)"

text \<open>
  Two hashtags name properties that the empty object inherits. For \<open>__proto__\<close> the read
  gives the prototype object and the write of the resulting string is ignored: the map
  does not change. For \<open>constructor\<close> the read gives a function, and the entry written is a
  string and no count; the comparator of the later sort then returns \<open>NaN\<close> and the order
  of the result is left to the engine. From there on the map is \<open>None\<close>: not modelled.
\<close>

definition bump_tag :: "nat jsobj option \<Rightarrow> jsstring \<Rightarrow> nat jsobj option" where
  "bump_tag hm tag =
     (case hm of
        None \<Rightarrow> None
      | Some m \<Rightarrow>
          if tag = ascii ''__proto__'' then Some m
          else if tag = ascii ''constructor'' then None
          else Some (bump m tag))"

text \<open>
  \<open>Object.entries(m).sort((a, b) => b[1] - a[1])\<close>: the sort is stable, so entries with
  equal counts keep the property order.
\<close>

definition by_count_desc :: "nat jsobj \<Rightarrow> nat jsobj" where
  "by_count_desc m = sort_key (\<lambda>e. - int (snd e)) m"

text \<open>\<open>[...new Set(xs)]\<close>: the distinct elements in the order of their first occurrence.\<close>

definition set_values :: "'a list \<Rightarrow> 'a list" where
  "set_values xs = foldl (\<lambda>acc x. if x \<in> set acc then acc else acc @ [x]) [] xs"

section \<open>The archived posts\<close>

text \<open>
  The fields of a status that the program reads. \<open>created_at\<close> is the time value of
  \<open>new Date(toot.created_at)\<close>, \<open>media_attachments\<close> the length of that array, \<open>reblog\<close>
  whether the status carries a reblogged status, \<open>in_reply_to_id\<close> is \<open>None\<close> for \<open>null\<close>.
\<close>

record toot =
  toot_id :: jsstring
  content :: jsstring
  created_at :: int
  media_attachments :: nat
  in_reply_to_id :: "jsstring option"
  reblog :: bool
  visibility :: jsstring
  favourites_count :: nat
  reblogs_count :: nat

text \<open>
  The object store \<open>toots\<close> has the key path \<open>id\<close>: \<open>put\<close> replaces the record with the same
  id or adds a new one, and \<open>getAll\<close> returns the records in ascending key order. The
  store is the list of its records in that order.
\<close>

fun store_put :: "toot \<Rightarrow> toot list \<Rightarrow> toot list" where
  "store_put t [] = [t]"
| "store_put t (u # us) =
     (if toot_id t = toot_id u then t # us
      else if toot_id t < toot_id u then t # u # us
      else u # store_put t us)"

section \<open>\<open>generateWrapped\<close>: the statistics\<close>

record time_distribution =
  morning :: jsnum
  afternoon :: jsnum
  evening :: jsnum
  night :: jsnum

text \<open>
  The record \<open>stats\<close> of the source. \<open>topHashtags\<close> is \<open>None\<close> where the hashtag map is not
  modelled (see \<open>bump_tag\<close>); \<open>mostActiveMonth\<close> is the pair of \<open>name\<close> and \<open>count\<close>.
\<close>

record stats =
  totalToots :: nat
  totalRetoots :: nat
  avgLength :: jsnum
  withMedia :: nat
  topHashtags :: "(jsstring \<times> nat) list option"
  replies :: nat
  mostActiveHour :: nat
  mostActiveDay :: jsstring
  longestStreak :: nat
  longestToot :: nat
  shortestToot :: jsnum
  medianLength :: jsnum
  totalWords :: nat
  avgWords :: jsnum
  timeDistribution :: time_distribution
  totalLinks :: nat
  totalMentions :: nat
  boosts :: nat
  privateToots :: nat
  mostActiveMonth :: "jsstring \<times> nat"
  totalFavorites :: nat
  totalReblogs :: nat

text \<open>
  What the traversal \<open>filteredToots.forEach\<close> changes: the counters of \<open>stats\<close> (prefix
  \<open>s_\<close>; the four bands are the raw counts of \<open>stats.timeDistribution\<close>) and the local
  variables \<open>totalChars\<close>, \<open>hashtagMap\<close>, \<open>hourMap\<close>, \<open>dayMap\<close>, \<open>monthMap\<close>, \<open>lengths\<close> and
  \<open>totalWords\<close>.
\<close>

record tally =
  s_longestToot :: nat
  s_shortestToot :: jsnum
  s_withMedia :: nat
  s_replies :: nat
  s_boosts :: nat
  s_privateToots :: nat
  s_totalLinks :: nat
  s_totalMentions :: nat
  s_totalFavorites :: nat
  s_totalReblogs :: nat
  s_morning :: nat
  s_afternoon :: nat
  s_evening :: nat
  s_night :: nat
  totalChars :: nat
  hashtagMap :: "nat jsobj option"
  hourMap :: "nat jsobj"
  dayMap :: "nat jsobj"
  monthMap :: "nat jsobj"
  lengths :: "nat list"
  totalWords_l :: nat

definition tally_init :: tally where
  "tally_init =
     \<lparr>s_longestToot = 0, s_shortestToot = Infinity, s_withMedia = 0, s_replies = 0,
      s_boosts = 0, s_privateToots = 0, s_totalLinks = 0, s_totalMentions = 0,
      s_totalFavorites = 0, s_totalReblogs = 0, s_morning = 0, s_afternoon = 0,
      s_evening = 0, s_night = 0, totalChars = 0, hashtagMap = Some [], hourMap = [],
      dayMap = [], monthMap = [], lengths = [], totalWords_l = 0\<rparr>"

text \<open>The four bands of the hour, in the order of the source's \<open>if\<close> chain.\<close>

datatype band = Morning | Afternoon | Evening | Night

definition band_of :: "nat \<Rightarrow> band" where
  "band_of hour =
     (if 6 \<le> hour \<and> hour < 12 then Morning
      else if 12 \<le> hour \<and> hour < 18 then Afternoon
      else if 18 \<le> hour \<and> hour < 24 then Evening
      else Night)"

text \<open>
  The body of the traversal for one post. Every statement of the body changes one
  variable, from its own old value and the post alone; the fields are listed in the order
  of the statements.
\<close>

definition tally_toot :: "int \<Rightarrow> tally \<Rightarrow> toot \<Rightarrow> tally" where
  "tally_toot tz a toot =
     (let text = strip_tags (content toot);
          len = length text;
          hour = getHours tz (created_at toot)
      in \<lparr>s_longestToot = (if len > s_longestToot a then len else s_longestToot a),
          s_shortestToot =
            (if js_less len (s_shortestToot a) \<and> len > 0 then Num (of_nat len)
             else s_shortestToot a),
          s_withMedia = (if media_attachments toot > 0 then s_withMedia a + 1 else s_withMedia a),
          s_replies =
            (if in_reply_to_id toot \<noteq> None \<and> in_reply_to_id toot \<noteq> Some []
             then s_replies a + 1 else s_replies a),
          s_boosts = (if reblog toot then s_boosts a + 1 else s_boosts a),
          s_privateToots =
            (if visibility toot = ascii ''private'' \<or> visibility toot = ascii ''direct''
             then s_privateToots a + 1 else s_privateToots a),
          s_totalLinks = s_totalLinks a + link_count text,
          s_totalMentions = s_totalMentions a + mention_count text,
          s_totalFavorites = s_totalFavorites a + favourites_count toot,
          s_totalReblogs = s_totalReblogs a + reblogs_count toot,
          s_morning = (if band_of hour = Morning then s_morning a + 1 else s_morning a),
          s_afternoon = (if band_of hour = Afternoon then s_afternoon a + 1 else s_afternoon a),
          s_evening = (if band_of hour = Evening then s_evening a + 1 else s_evening a),
          s_night = (if band_of hour = Night then s_night a + 1 else s_night a),
          totalChars = totalChars a + len,
          hashtagMap = foldl bump_tag (hashtagMap a) (hashtags_of text),
          hourMap = bump (hourMap a) (dec hour),
          dayMap = bump (dayMap a) (dayName tz (created_at toot)),
          monthMap = bump (monthMap a) (monthName tz (created_at toot)),
          lengths = lengths a @ [len],
          totalWords_l = totalWords_l a + length (words_of text)\<rparr>)"

text \<open>
  The median: \<open>lengths.sort((a, b) => a - b)\<close>, then the middle element, or the rounded
  mean of the two middle elements. On the empty array both reads are \<open>undefined\<close> and the
  result is \<open>NaN\<close>.
\<close>

definition median :: "nat list \<Rightarrow> jsnum" where
  "median ls =
     (let sorted = sort ls; mid = length sorted div 2
      in if length sorted mod 2 = 0
         then (if sorted = [] then NaN
               else Math_round (js_div (sorted ! (mid - 1) + sorted ! mid) 2))
         else Num (of_nat (sorted ! mid)))"

definition percentage :: "nat \<Rightarrow> nat \<Rightarrow> jsnum" where
  "percentage n total_n = Math_round (js_times (js_div n total_n) 100)"

text \<open>
  The streak loop over \<open>uniqueDates\<close>: \<open>diff\<close> is \<open>Math.floor((curr - prev) / msPerDay)\<close>,
  and \<open>NaN\<close> (here \<open>None\<close>) if one of the two dates is invalid.
\<close>

definition date_diff :: "int \<Rightarrow> jsstring \<Rightarrow> jsstring \<Rightarrow> int option" where
  "date_diff tz prev_s curr_s =
     (case (parse_date_string tz prev_s, parse_date_string tz curr_s) of
        (Some p, Some c) \<Rightarrow> Some ((c - p) div msPerDay)
      | _ \<Rightarrow> None)"

fun streak_loop :: "int \<Rightarrow> jsstring list \<Rightarrow> nat \<Rightarrow> nat \<Rightarrow> nat" where
  "streak_loop tz (prev_s # curr_s # rest) currentStreak maxStreak =
     (if date_diff tz prev_s curr_s = Some 1
      then streak_loop tz (curr_s # rest) (currentStreak + 1)
             (if currentStreak + 1 > maxStreak then currentStreak + 1 else maxStreak)
      else streak_loop tz (curr_s # rest) 1 maxStreak)"
| "streak_loop tz uniqueDates currentStreak maxStreak = maxStreak"

definition longest_streak :: "int \<Rightarrow> toot list \<Rightarrow> nat" where
  "longest_streak tz filteredToots =
     (let dates = sort (map (\<lambda>t. toDateString tz (created_at t)) filteredToots);
          uniqueDates = set_values dates
      in streak_loop tz uniqueDates 1 1)"

text \<open>\<open>parseInt\<close> of a key of \<open>hourMap\<close>, which is a decimal numeral.\<close>

definition parseInt :: "jsstring \<Rightarrow> nat" where
  "parseInt s = digits_value (takeWhile is_digit s)"

definition compute_stats :: "int \<Rightarrow> toot list \<Rightarrow> stats" where
  "compute_stats tz allToots =
     (let filteredToots = filter (\<lambda>toot. \<not> reblog toot) allToots;
          a = foldl (tally_toot tz) tally_init filteredToots;
          total_n = length filteredToots
      in \<lparr>totalToots = length filteredToots,
          totalRetoots = length allToots - length filteredToots,
          avgLength = Math_round (js_div (totalChars a) (length filteredToots)),
          withMedia = s_withMedia a,
          topHashtags = map_option (\<lambda>m. take 5 (by_count_desc m)) (hashtagMap a),
          replies = s_replies a,
          mostActiveHour = (case by_count_desc (hourMap a) of [] \<Rightarrow> 12 | maxHour # _ \<Rightarrow> parseInt (fst maxHour)),
          mostActiveDay = (case by_count_desc (dayMap a) of [] \<Rightarrow> ascii ''Montag'' | maxDay # _ \<Rightarrow> fst maxDay),
          longestStreak = longest_streak tz filteredToots,
          longestToot = s_longestToot a,
          shortestToot = s_shortestToot a,
          medianLength = median (lengths a),
          totalWords = totalWords_l a,
          avgWords = Math_round (js_div (totalWords_l a) (length filteredToots)),
          timeDistribution =
            \<lparr>morning = percentage (s_morning a) total_n,
             afternoon = percentage (s_afternoon a) total_n,
             evening = percentage (s_evening a) total_n,
             night = percentage (s_night a) total_n\<rparr>,
          totalLinks = s_totalLinks a,
          totalMentions = s_totalMentions a,
          boosts = s_boosts a,
          privateToots = s_privateToots a,
          mostActiveMonth = (case by_count_desc (monthMap a) of [] \<Rightarrow> (ascii ''Januar'', 0) | maxMonth # _ \<Rightarrow> maxMonth),
          totalFavorites = s_totalFavorites a,
          totalReblogs = s_totalReblogs a\<rparr>)"

section \<open>The application state and its environment\<close>

text \<open>
  The environment of a run: the server's answer to the request for the statuses older than
  a given \<open>max_id\<close> (\<open>None\<close>: the request without \<open>max_id\<close>), whether the store rejects a
  \<open>put\<close> or the \<open>getAll\<close> (with the message of the error), the clock and the zone offset.
  A \<open>Rejected\<close> response stands for a rejected \<open>fetch\<close> or \<open>response.json()\<close>, \<open>NotOk\<close> for
  a response whose \<open>ok\<close> is false.
\<close>

datatype response = Rejected jsstring | NotOk | Ok "toot list"

record env =
  env_fetch :: "jsstring option \<Rightarrow> response"
  env_put_error :: "toot \<Rightarrow> jsstring option"
  env_getAll_error :: "jsstring option"
  env_now :: int
  env_tz :: int

text \<open>
  The effects of a run that can be observed from outside, in the order in which they
  happen: a page request, an assignment to \<open>importProgress.value\<close>, the pause between two
  requests, a record written to the store.
\<close>

datatype event = Fetch "jsstring option" | Progress nat | Sleep nat | Put toot

text \<open>
  The reactive values that \<open>startImport\<close> and \<open>generateWrapped\<close> write (the display string
  \<open>statusText\<close> and the stopwatch \<open>importTime\<close> are left out), the store \<open>toots\<close>, and the
  trace of the effects so far.
\<close>

record app =
  db_toots :: "toot list"
  isImporting :: bool
  importComplete :: bool
  importProgress :: nat
  error_value :: "jsstring option"
  totalToots_value :: nat
  existingTootsCount :: nat
  wrappedData :: "stats option"
  isGenerating :: bool
  trace :: "event list"

definition generateWrapped :: "env \<Rightarrow> app \<Rightarrow> app" where
  "generateWrapped e a0 =
     (let a = a0\<lparr>isGenerating := True\<rparr>
      in case env_getAll_error e of
           Some msg \<Rightarrow>
             a\<lparr>error_value := Some (ascii ''Fehler beim Generieren: '' @ msg),
               isGenerating := False\<rparr>
         | None \<Rightarrow>
             a\<lparr>wrappedData := Some (compute_stats (env_tz e) (db_toots a)),
               isGenerating := False\<rparr>)"

section \<open>\<open>startImport\<close>: the paginated retrieval\<close>

text \<open>
  \<open>oneYearAgo\<close>: the clock reading with the local year decreased by one
  (\<open>setFullYear\<close>; 29 February becomes 1 March).
\<close>

definition oneYearAgo :: "env \<Rightarrow> int" where
  "oneYearAgo e =
     (let lt = local_time (env_tz e) (env_now e);
          (y, m, d) = civil_from_days (lt div msPerDay)
      in days_from_civil (y - 1) m d * msPerDay + lt mod msPerDay - env_tz e * 60000)"

text \<open>The local variables of \<open>startImport\<close>, with the progress value and the effects.\<close>

record import_run =
  allToots :: "toot list"
  maxId :: "jsstring option"
  hasMore :: bool
  page :: nat
  progress :: nat
  effects :: "event list"

definition run_init :: import_run where
  "run_init = \<lparr>allToots = [], maxId = None, hasMore = True, page = 0, progress = 0, effects = []\<rparr>"

text \<open>\<open>if (maxId) url += ...\<close>: \<open>null\<close> and the empty string add no \<open>max_id\<close>.\<close>

definition request_cursor :: "jsstring option \<Rightarrow> jsstring option" where
  "request_cursor m = (case m of None \<Rightarrow> None | Some i \<Rightarrow> if i = [] then None else Some i)"

text \<open>
  One pass through the body of \<open>while (hasMore)\<close>. \<open>Inl\<close> is the \<open>throw\<close>, with the message
  and the state at that point; the \<open>break\<close> on an empty page leaves with \<open>hasMore\<close> false.
\<close>

definition import_page :: "env \<Rightarrow> int \<Rightarrow> import_run \<Rightarrow> (jsstring \<times> import_run) + import_run" where
  "import_page e cutoff r =
     (let r = r\<lparr>page := page r + 1, effects := effects r @ [Fetch (request_cursor (maxId r))]\<rparr>
      in case env_fetch e (request_cursor (maxId r)) of
           Rejected msg \<Rightarrow> Inl (msg, r)
         | NotOk \<Rightarrow> Inl (ascii ''Fehler beim Abrufen der Toots'', r)
         | Ok tootsPage \<Rightarrow>
             if length tootsPage = 0 then Inr (r\<lparr>hasMore := False\<rparr>)
             else
               let filteredToots = filter (\<lambda>toot. created_at toot \<ge> cutoff) tootsPage;
                   r = r\<lparr>allToots := allToots r @ filteredToots\<rparr>;
                   oldestToot = tootsPage ! (length tootsPage - 1);
                   r = (if created_at oldestToot < cutoff then r\<lparr>hasMore := False\<rparr>
                        else r\<lparr>maxId := Some (toot_id oldestToot)\<rparr>);
                   r = r\<lparr>progress := min 95 (page r * 10)\<rparr>
               in Inr (r\<lparr>effects := effects r @ [Progress (progress r), Sleep 1000]\<rparr>))"

text \<open>The loop. Nothing bounds the number of pages, so it need not return: \<open>None\<close>.\<close>

partial_function (option) import_loop ::
  "env \<Rightarrow> int \<Rightarrow> import_run \<Rightarrow> ((jsstring \<times> import_run) + import_run) option" where
  "import_loop e cutoff r =
     (if hasMore r
      then (case import_page e cutoff r of
              Inl err \<Rightarrow> Some (Inl err)
            | Inr r' \<Rightarrow> import_loop e cutoff r')
      else Some (Inr r))"

text \<open>The state after at most \<open>n\<close> passes: the run as far as it has come by then.\<close>

fun import_steps :: "env \<Rightarrow> int \<Rightarrow> nat \<Rightarrow> import_run \<Rightarrow> (jsstring \<times> import_run) + import_run" where
  "import_steps e cutoff 0 r = Inr r"
| "import_steps e cutoff (Suc n) r =
     (if hasMore r
      then (case import_page e cutoff r of
              Inl err \<Rightarrow> Inl err
            | Inr r' \<Rightarrow> import_steps e cutoff n r')
      else Inr r)"

text \<open>
  \<open>for (const toot of allToots) await saveToDb('toots', toot)\<close>: the store and the writes
  so far, and the message of the first rejected \<open>put\<close>, which ends the loop.
\<close>

fun save_all :: "env \<Rightarrow> toot list \<Rightarrow> toot list \<Rightarrow> event list \<Rightarrow> toot list \<times> event list \<times> jsstring option" where
  "save_all e [] db ev = (db, ev, None)"
| "save_all e (toot # rest) db ev =
     (case env_put_error e toot of
        Some msg \<Rightarrow> (db, ev, Some msg)
      | None \<Rightarrow> save_all e rest (store_put toot db) (ev @ [Put toot]))"

definition import_error :: "jsstring \<Rightarrow> jsstring" where
  "import_error msg = ascii ''Import-Fehler: '' @ msg"

definition startImport :: "env \<Rightarrow> app \<Rightarrow> app option" where
  "startImport e a0 =
     (let a = a0\<lparr>isImporting := True, error_value := None, importProgress := 0,
                  trace := trace a0 @ [Progress 0]\<rparr>
      in case import_loop e (oneYearAgo e) run_init of
           None \<Rightarrow> None
         | Some (Inl (msg, r)) \<Rightarrow>
             Some (a\<lparr>importProgress := progress r, trace := trace a @ effects r,
                      error_value := Some (import_error msg), isImporting := False\<rparr>)
         | Some (Inr r) \<Rightarrow>
             (case save_all e (allToots r) (db_toots a) [] of
                (db, written, Some msg) \<Rightarrow>
                  Some (a\<lparr>db_toots := db, importProgress := progress r,
                           trace := trace a @ effects r @ written,
                           error_value := Some (import_error msg), isImporting := False\<rparr>)
              | (db, written, None) \<Rightarrow>
                  Some ((generateWrapped e
                           (a\<lparr>db_toots := db, totalToots_value := length (allToots r),
                              importProgress := 100, importComplete := True,
                              existingTootsCount := length (allToots r),
                              trace := trace a @ effects r @ written @ [Progress 100]\<rparr>))
                        \<lparr>isImporting := False\<rparr>)))"

section \<open>Notions used in the statements\<close>

text \<open>The number of posts of a list whose local hour falls into a band.\<close>

definition band_count :: "int \<Rightarrow> band \<Rightarrow> toot list \<Rightarrow> nat" where
  "band_count tz b ts = length (filter (\<lambda>t. band_of (getHours tz (created_at t)) = b) ts)"

text \<open>
  The distinct elements of a list in the order of their first occurrence, and the order in
  which an object lists the keys that were created in the order \<open>ks\<close>: the array indices
  in ascending numeric order, then the other keys as first seen.
\<close>

definition first_seen :: "'a list \<Rightarrow> 'a list" where
  "first_seen xs = rev (remdups (rev xs))"

definition key_order :: "jsstring list \<Rightarrow> jsstring list" where
  "key_order ks =
     sort_key digits_value (filter is_array_index (first_seen ks))
     @ filter (\<lambda>k. \<not> is_array_index k) (first_seen ks)"

text \<open>The entries of a counting map whose keys were counted in the order \<open>ks\<close>.\<close>

definition frequency_entries :: "jsstring list \<Rightarrow> nat jsobj" where
  "frequency_entries ks = map (\<lambda>k. (k, count_list ks k)) (key_order ks)"

text \<open>All hashtags of the posts that are not boosts, in the order of the traversal.\<close>

definition hashtag_occurrences :: "toot list \<Rightarrow> jsstring list" where
  "hashtag_occurrences toots =
     concat (map (\<lambda>t. hashtags_of (strip_tags (content t))) (filter (\<lambda>toot. \<not> reblog toot) toots))"

text \<open>The requests, the progress values and the written records of a trace.\<close>

fun fetches :: "event list \<Rightarrow> jsstring option list" where
  "fetches [] = []"
| "fetches (Fetch c # es) = c # fetches es"
| "fetches (ev # es) = fetches es"

fun progress_of :: "event list \<Rightarrow> nat list" where
  "progress_of [] = []"
| "progress_of (Progress p # es) = p # progress_of es"
| "progress_of (ev # es) = progress_of es"

fun puts :: "event list \<Rightarrow> toot list" where
  "puts [] = []"
| "puts (Put t # es) = t # puts es"
| "puts (ev # es) = puts es"

text \<open>
  A page ends the retrieval if it is empty or if its last post, the oldest of a page that
  is ordered newest first, is older than the cutoff. \<open>served e cutoff m pages\<close>: the pages
  are what the server returns to the requests that start with the cursor \<open>m\<close> and go on
  with the id of the last post of each page, and the last of them is the first one that
  ends the retrieval.
\<close>

definition stops :: "int \<Rightarrow> toot list \<Rightarrow> bool" where
  "stops cutoff tootsPage \<longleftrightarrow> tootsPage = [] \<or> created_at (last tootsPage) < cutoff"

fun served :: "env \<Rightarrow> int \<Rightarrow> jsstring option \<Rightarrow> toot list list \<Rightarrow> bool" where
  "served e cutoff m [] = False"
| "served e cutoff m [p] = (env_fetch e (request_cursor m) = Ok p \<and> stops cutoff p)"
| "served e cutoff m (p # q # ps) =
     (env_fetch e (request_cursor m) = Ok p \<and> \<not> stops cutoff p
      \<and> served e cutoff (Some (toot_id (last p))) (q # ps))"

text \<open>The state that a result of the loop carries, thrown or not.\<close>

definition run_of :: "(jsstring \<times> import_run) + import_run \<Rightarrow> import_run" where
  "run_of res = (case res of Inl (msg, r) \<Rightarrow> r | Inr r \<Rightarrow> r)"

text \<open>
  A response that is no page, and \<open>fails_after e cutoff m pages\<close>: the server returns the
  pages, none of which ends the retrieval, and then fails to answer the next request.
\<close>

definition failed :: "response \<Rightarrow> bool" where
  "failed resp = (case resp of Ok p \<Rightarrow> False | _ \<Rightarrow> True)"

fun fails_after :: "env \<Rightarrow> int \<Rightarrow> jsstring option \<Rightarrow> toot list list \<Rightarrow> bool" where
  "fails_after e cutoff m [] = failed (env_fetch e (request_cursor m))"
| "fails_after e cutoff m (p # ps) =
     (env_fetch e (request_cursor m) = Ok p \<and> \<not> stops cutoff p
      \<and> fails_after e cutoff (Some (toot_id (last p))) ps)"

text \<open>What holds of the state of the loop between two passes.\<close>

definition run_ok :: "env \<Rightarrow> import_run \<Rightarrow> bool" where
  "run_ok e r \<longleftrightarrow>
     sorted (progress_of (effects r))
     \<and> list_all (\<lambda>p. p \<le> progress r) (progress_of (effects r))
     \<and> progress r \<le> min 95 (page r * 10)
     \<and> progress r = last (0 # progress_of (effects r))
     \<and> puts (effects r) = []
     \<and> list_all (\<lambda>c. \<not> failed (env_fetch e c)) (fetches (effects r))
     \<and> length (fetches (effects r)) = page r"

section \<open>Example inputs\<close>

text \<open>
  A public status without media, replies or favourites, and the time value of an hour of
  a day (day 20089 is 1 January 2025, day 19723 is 1 January 2024).
\<close>

definition status :: "string \<Rightarrow> string \<Rightarrow> int \<Rightarrow> toot" where
  "status i c t =
     \<lparr>toot_id = ascii i, content = ascii c, created_at = t, media_attachments = 0,
      in_reply_to_id = None, reblog = False, visibility = ascii ''public'',
      favourites_count = 0, reblogs_count = 0\<rparr>"

definition at_hour :: "int \<Rightarrow> int \<Rightarrow> int" where
  "at_hour d h = d * msPerDay + h * 3600000"

definition app_init :: app where
  "app_init = \<lparr>db_toots = [], isImporting = False, importComplete = False, importProgress = 0,
     error_value = None, totalToots_value = 0, existingTootsCount = 0, wrappedData = None,
     isGenerating = False, trace = []\<rparr>"

definition empty_posts :: "toot list" where
  "empty_posts = [status ''1'' ''<p></p>'' (at_hour 20089 12), status ''2'' [] (at_hour 20090 12)]"

definition env_quiet :: env where
  "env_quiet = \<lparr>env_fetch = (\<lambda>c. Ok []), env_put_error = (\<lambda>t. None), env_getAll_error = None,
     env_now = at_hour 20454 12, env_tz = 0\<rparr>"

definition boost_only :: "toot list" where
  "boost_only = [(status ''1'' ''<p>boosted</p>'' (at_hour 20089 12))\<lparr>reblog := True\<rparr>]"

definition three_posts :: "toot list" where
  "three_posts = [status ''1'' ''ccc'' (at_hour 20089 12), status ''2'' ''a'' (at_hour 20089 13),
     status ''3'' ''<b>bb</b>'' (at_hour 20089 14)]"

definition four_posts :: "toot list" where
  "four_posts = [status ''1'' ''dddd'' (at_hour 20089 12), status ''2'' ''a'' (at_hour 20089 13),
     status ''3'' ''ccc'' (at_hour 20089 14), status ''4'' ''<i>bb</i>'' (at_hour 20089 15)]"

definition band_posts :: "toot list" where
  "band_posts =
     [status ''1'' [] (at_hour 20089 7), status ''2'' [] (at_hour 20089 13),
      status ''3'' [] (at_hour 20089 19), status ''4'' [] (at_hour 20089 1),
      status ''5'' [] (at_hour 20089 2), status ''6'' [] (at_hour 20089 3),
      status ''7'' [] (at_hour 20089 4), status ''8'' [] (at_hour 20089 5)]"

definition january_posts :: "toot list" where
  "january_posts =
     [status ''1'' ''a'' (at_hour 20089 12), status ''2'' ''b'' (at_hour 20090 12),
      status ''3'' ''c'' (at_hour 20091 12), status ''4'' ''d'' (at_hour 20093 12)]"

definition year_post :: "toot list" where
  "year_post = [status ''1'' ''<p>#foo #2024</p>'' (at_hour 20089 12)]"

definition tag_posts :: "toot list" where
  "tag_posts = [status ''1'' ''<p>#a #Foo #a</p>'' (at_hour 20089 12),
     status ''2'' ''#b #foo'' (at_hour 20089 13)]"

text \<open>
  A feed of four pages, newest first. The clock reads 12:00 on 1 January 2026 (day 20454),
  so the cutoff is 12:00 on 1 January 2025 (day 20089): the last post of the third page
  is older than that, and the fourth page is never asked for.
\<close>

definition page1 :: "toot list" where
  "page1 = [status ''107'' ''a'' (at_hour 20400 9), status ''106'' ''b'' (at_hour 20300 9)]"

definition page2 :: "toot list" where
  "page2 = [status ''105'' ''c'' (at_hour 20200 9), status ''104'' ''d'' (at_hour 20100 9)]"

definition page3 :: "toot list" where
  "page3 = [status ''103'' ''e'' (at_hour 20090 9), status ''102'' ''f'' (at_hour 20000 9)]"

definition page4 :: "toot list" where
  "page4 = [status ''101'' ''g'' (at_hour 19990 9)]"

definition feed :: "jsstring option \<Rightarrow> response" where
  "feed c =
     (if c = None then Ok page1
      else if c = Some (ascii ''106'') then Ok page2
      else if c = Some (ascii ''104'') then Ok page3
      else if c = Some (ascii ''102'') then Ok page4
      else Ok [])"

definition env_feed :: env where
  "env_feed = \<lparr>env_fetch = feed, env_put_error = (\<lambda>t. None), env_getAll_error = None,
     env_now = at_hour 20454 12, env_tz = 0\<rparr>"

text \<open>The same feed behind a server that answers the second request with an error.\<close>

definition env_broken :: env where
  "env_broken = \<lparr>env_fetch = (\<lambda>c. if c = None then Ok page1 else NotOk),
     env_put_error = (\<lambda>t. None), env_getAll_error = None, env_now = at_hour 20454 12,
     env_tz = 0\<rparr>"

section \<open>Rounding to binary64\<close>

lemma pow2_powi: "pow2 e = 2 powi e"
  by (simp add: pow2_def power_int_def power_one_over inverse_eq_divide)

lemma pow2_pos: "0 < pow2 e"
  by (simp add: pow2_powi)

lemma pow2_diff: "pow2 (a - b) = pow2 a / pow2 b"
  by (simp add: pow2_powi power_int_diff)

lemma pow2_nat: "pow2 (int n) = 2 ^ n"
  by (simp add: pow2_def)

lemma pow2_mono: "a \<le> b \<Longrightarrow> pow2 a \<le> pow2 b"
  by (simp add: pow2_powi power_int_increasing)

lemma pow2_less_cancel: "pow2 a < pow2 b \<Longrightarrow> a < b"
  using pow2_mono [of b a] by (cases "a < b") auto

text \<open>The exponent that \<open>binade\<close> computes is not above the number.\<close>

lemma binade_le:
  assumes "0 < x"
  shows "pow2 (binade x) \<le> x"
proof -
  obtain p q where pq: "quotient_of x = (p, q)" by (cases "quotient_of x")
  have q: "0 < q" using quotient_of_denom_pos [OF pq] .
  have x: "x = of_int p / of_int q" by (rule quotient_of_div [OF pq])
  have p: "0 < p" using assms q unfolding x by (simp add: zero_less_divide_iff)
  let ?e0 = "bitlen p - bitlen q"
  have lo: "pow2 (?e0 - 1) \<le> x"
  proof -
    have "p < 2 ^ nat (bitlen p)" using bitlen_bounds [OF p] by simp
    with p have bp: "0 < bitlen p" by (cases "0 < bitlen p") auto
    have "(2::int) ^ nat (bitlen p - 1) \<le> p" using bitlen_bounds [OF p] by simp
    then have "of_int ((2::int) ^ nat (bitlen p - 1)) \<le> (of_int p :: rat)"
      by (simp only: of_int_le_iff)
    then have a: "pow2 (bitlen p - 1) \<le> of_int p"
      using bp by (simp add: pow2_def)
    have "q < 2 ^ nat (bitlen q)" using bitlen_bounds [OF q] by simp
    then have "(of_int q :: rat) < of_int ((2::int) ^ nat (bitlen q))"
      by (simp only: of_int_less_iff)
    moreover have "0 \<le> bitlen q" by (simp add: bitlen_def)
    ultimately have b: "of_int q \<le> pow2 (bitlen q)"
      by (simp add: pow2_def)
    have "pow2 (?e0 - 1) = pow2 (bitlen p - 1) / pow2 (bitlen q)"
      using pow2_diff [of "bitlen p - 1" "bitlen q"] by (simp add: algebra_simps)
    also have "\<dots> \<le> of_int p / of_int q"
      using a b q pow2_pos [of "bitlen p - 1"] by (intro frac_le) auto
    finally show ?thesis by (simp add: x)
  qed
  show ?thesis
    using lo pq by (auto simp: binade_def Let_def)
qed

lemma round_even_err: "\<bar>of_int (round_even q) - q\<bar> \<le> 1 / 2"
proof -
  define n where "n = \<lfloor>q\<rfloor>"
  have "of_int n \<le> q" "q < of_int n + 1" unfolding n_def by linarith+
  then show ?thesis
    unfolding round_even_def Let_def n_def [symmetric] by (auto simp: abs_if)
qed

lemma round_even_of_int: "round_even (of_int k) = k"
  by (simp add: round_even_def)

lemma fl_pos:
  assumes "0 < x"
  shows "fl x = of_int (round_even (x / pow2 (binade x - 52))) * pow2 (binade x - 52)"
  using assms by (simp add: fl_def Let_def)

text \<open>The relative error of one rounding is at most \<open>2^-53\<close>.\<close>

lemma fl_err:
  assumes "0 \<le> x"
  shows "\<bar>fl x - x\<bar> \<le> x / 2 ^ 53"
proof (cases "x = 0")
  case True
  then show ?thesis by (simp add: fl_def)
next
  case False
  with assms have x: "0 < x" by simp
  let ?u = "pow2 (binade x - 52)"
  have u: "0 < ?u" by (rule pow2_pos)
  have "fl x - x = (of_int (round_even (x / ?u)) - x / ?u) * ?u"
    using u by (simp add: fl_pos [OF x] algebra_simps)
  then have "\<bar>fl x - x\<bar> = \<bar>of_int (round_even (x / ?u)) - x / ?u\<bar> * ?u"
    using u by (simp add: abs_mult)
  also have "\<dots> \<le> 1 / 2 * ?u"
    using round_even_err [of "x / ?u"] u by (intro mult_right_mono) auto
  also have "?u = pow2 (binade x) / 2 ^ 52"
    using pow2_diff [of "binade x" 52] pow2_nat [of 52] by simp
  also have "1 / 2 * (pow2 (binade x) / 2 ^ 52) \<le> 1 / 2 * (x / 2 ^ 52)"
    using binade_le [OF x] by (simp add: divide_right_mono)
  finally show ?thesis by simp
qed

lemma fl_exact:
  assumes "0 < x" and "x / pow2 (binade x - 52) = of_int k"
  shows "fl x = x"
proof -
  have "fl x = of_int k * pow2 (binade x - 52)"
    by (simp add: fl_pos [OF assms(1)] assms(2) round_even_of_int)
  also have "\<dots> = x"
    using pow2_pos [of "binade x - 52"] assms(2) [symmetric] by simp
  finally show ?thesis .
qed

text \<open>Halving an integer below \<open>2^53\<close> is exact.\<close>

lemma fl_half:
  assumes "m < 2 ^ 53"
  shows "fl (of_nat m / 2) = of_nat m / 2"
proof (cases "m = 0")
  case True
  then show ?thesis by (simp add: fl_def)
next
  case False
  let ?x = "of_nat m / 2 :: rat"
  have x: "0 < ?x" using False by simp
  have "?x < 2 ^ 52"
  proof -
    have "(of_nat m :: rat) < of_nat (2 ^ 53)" using assms by (simp only: of_nat_less_iff)
    then show ?thesis by simp
  qed
  with binade_le [OF x] have "pow2 (binade ?x) < pow2 52"
    using pow2_nat [of 52] by simp
  then have e: "binade ?x < 52" by (rule pow2_less_cancel)
  define j where "j = nat (51 - binade ?x)"
  have j: "binade ?x - 52 = - 1 - int j" using e by (simp add: j_def)
  have "pow2 (binade ?x - 52) = 1 / (2 * 2 ^ j)"
    unfolding j using pow2_diff [of "- 1" "int j"] by (simp add: pow2_nat) (simp add: pow2_def)
  then have "?x / pow2 (binade ?x - 52) = of_int (int m * 2 ^ j)"
    by simp
  from fl_exact [OF x this] show ?thesis .
qed

section \<open>The traversal, field by field\<close>

lemma tally_toot_shortest:
  "s_shortestToot (tally_toot tz a t) =
     (if js_less (length (strip_tags (content t))) (s_shortestToot a)
         \<and> 0 < length (strip_tags (content t))
      then Num (of_nat (length (strip_tags (content t)))) else s_shortestToot a)"
  by (simp add: tally_toot_def Let_def)

lemma foldl_tally_shortest_empty:
  "\<forall>t \<in> set ts. length (strip_tags (content t)) = 0 \<Longrightarrow>
   s_shortestToot (foldl (tally_toot tz) a ts) = s_shortestToot a"
  by (induction ts arbitrary: a) (simp_all add: tally_toot_shortest)

lemma compute_stats_shortestToot:
  "shortestToot (compute_stats tz toots) =
     s_shortestToot (foldl (tally_toot tz) tally_init (filter (\<lambda>toot. \<not> reblog toot) toots))"
  by (simp add: compute_stats_def Let_def)

lemma tally_toot_lengths:
  "lengths (tally_toot tz a t) = lengths a @ [length (strip_tags (content t))]"
  by (simp add: tally_toot_def Let_def)

lemma foldl_tally_lengths:
  "lengths (foldl (tally_toot tz) a ts) = lengths a @ map (\<lambda>t. length (strip_tags (content t))) ts"
  by (induction ts arbitrary: a) (simp_all add: tally_toot_lengths)

lemma compute_stats_medianLength:
  "medianLength (compute_stats tz toots) =
     median (map (\<lambda>t. length (strip_tags (content t))) (filter (\<lambda>toot. \<not> reblog toot) toots))"
  by (simp add: compute_stats_def Let_def foldl_tally_lengths tally_init_def)

section \<open>The median\<close>

lemma Math_round_half: "Math_round (Num (of_nat m / 2)) = Num (of_nat ((m + 1) div 2))"
proof -
  have "(of_nat m / 2 + 1 / 2 :: rat) = of_nat (m + 1) / of_nat 2"
    by (simp add: field_simps)
  then have "\<lfloor>of_nat m / 2 + 1 / 2 :: rat\<rfloor> = int ((m + 1) div 2)"
    by (simp only: floor_divide_of_nat_eq)
  then show ?thesis
    by (simp add: Math_round_def)
qed

lemma js_div_two: "m < 2 ^ 53 \<Longrightarrow> js_div m 2 = Num (of_nat m / 2)"
  by (simp add: js_div_def fl_half)

lemma median_odd:
  "odd (length ls) \<Longrightarrow> median ls = Num (of_nat (sort ls ! (length ls div 2)))"
  by (simp add: median_def Let_def odd_iff_mod_2_eq_one)

lemma median_even:
  assumes "ls \<noteq> []" and "even (length ls)"
    and "sort ls ! (length ls div 2 - 1) + sort ls ! (length ls div 2) < 2 ^ 53"
  shows "median ls =
    Num (of_nat ((sort ls ! (length ls div 2 - 1) + sort ls ! (length ls div 2) + 1) div 2))"
proof -
  let ?m = "sort ls ! (length ls div 2 - 1) + sort ls ! (length ls div 2)"
  have "sort ls \<noteq> []" using assms(1) by (metis length_sort length_0_conv)
  with assms(2) have "median ls = Math_round (js_div ?m 2)"
    by (simp add: median_def Let_def even_iff_mod_2_eq_zero)
  also have "\<dots> = Math_round (Num (of_nat ?m / 2))"
    by (simp only: js_div_two [OF assms(3)])
  also have "\<dots> = Num (of_nat ((?m + 1) div 2))"
    by (rule Math_round_half)
  finally show ?thesis .
qed

section \<open>The four bands and their percentages\<close>

lemma getHours_less: "getHours tz t < 24"
proof -
  have "0 \<le> local_time tz t mod msPerDay" "local_time tz t mod msPerDay < msPerDay"
    by (simp_all add: msPerDay_def)
  then have "(local_time tz t mod msPerDay) div 3600000 < 24"
    by (simp add: msPerDay_def)
  then show ?thesis by (simp add: getHours_def)
qed

lemma tally_toot_bands:
  "s_morning (tally_toot tz a t) = s_morning a + band_count tz Morning [t]"
  "s_afternoon (tally_toot tz a t) = s_afternoon a + band_count tz Afternoon [t]"
  "s_evening (tally_toot tz a t) = s_evening a + band_count tz Evening [t]"
  "s_night (tally_toot tz a t) = s_night a + band_count tz Night [t]"
  by (simp_all add: tally_toot_def Let_def band_count_def)

lemma band_count_Cons: "band_count tz b (t # ts) = band_count tz b [t] + band_count tz b ts"
  by (simp add: band_count_def)

lemma foldl_tally_bands:
  "s_morning (foldl (tally_toot tz) a ts) = s_morning a + band_count tz Morning ts
   \<and> s_afternoon (foldl (tally_toot tz) a ts) = s_afternoon a + band_count tz Afternoon ts
   \<and> s_evening (foldl (tally_toot tz) a ts) = s_evening a + band_count tz Evening ts
   \<and> s_night (foldl (tally_toot tz) a ts) = s_night a + band_count tz Night ts"
proof (induction ts arbitrary: a)
  case Nil
  show ?case by (simp add: band_count_def)
next
  case (Cons t ts)
  show ?case
    using Cons.IH [of "tally_toot tz a t"]
    by (simp add: tally_toot_bands band_count_Cons [of _ _ t ts])
qed

lemma band_count_total:
  "band_count tz Morning ts + band_count tz Afternoon ts + band_count tz Evening ts
   + band_count tz Night ts = length ts"
proof (induction ts)
  case Nil
  show ?case by (simp add: band_count_def)
next
  case (Cons t ts)
  then show ?case
    by (cases "band_of (getHours tz (created_at t))") (simp_all add: band_count_def)
qed

lemma compute_stats_timeDistribution:
  "timeDistribution (compute_stats tz toots) =
     \<lparr>morning = percentage (band_count tz Morning (filter (\<lambda>toot. \<not> reblog toot) toots))
                  (length (filter (\<lambda>toot. \<not> reblog toot) toots)),
      afternoon = percentage (band_count tz Afternoon (filter (\<lambda>toot. \<not> reblog toot) toots))
                  (length (filter (\<lambda>toot. \<not> reblog toot) toots)),
      evening = percentage (band_count tz Evening (filter (\<lambda>toot. \<not> reblog toot) toots))
                  (length (filter (\<lambda>toot. \<not> reblog toot) toots)),
      night = percentage (band_count tz Night (filter (\<lambda>toot. \<not> reblog toot) toots))
                  (length (filter (\<lambda>toot. \<not> reblog toot) toots))\<rparr>"
  by (simp add: compute_stats_def Let_def foldl_tally_bands tally_init_def)

lemma percentage_bounds:
  assumes "c \<le> t" and "0 < t"
  shows "\<exists>k::int. percentage c t = Num (of_int k)
           \<and> \<bar>of_int k - 100 * (of_nat c / of_nat t)\<bar> < (5 / 8 :: rat)"
proof -
  define x :: rat where "x = of_nat c / of_nat t"
  define q where "q = fl x"
  define y where "y = fl (q * 100)"
  define k where "k = \<lfloor>y + 1 / 2\<rfloor>"
  define u :: rat where "u = 1 / 2 ^ 53"
  have u: "0 \<le> u" "u \<le> 1 / 4000" by (simp_all add: u_def)
  have x0: "0 \<le> x" by (simp add: x_def)
  have x1: "x \<le> 1" using assms by (simp add: x_def)
  have "\<bar>q - x\<bar> \<le> x / 2 ^ 53" unfolding q_def by (rule fl_err [OF x0])
  also have "\<dots> = x * u" by (simp add: u_def)
  also have "\<dots> \<le> 1 * u" using x1 u(1) by (rule mult_right_mono)
  finally have b1: "\<bar>q - x\<bar> \<le> u" by simp
  have q0: "0 \<le> q"
  proof -
    have "\<bar>q - x\<bar> \<le> x / 2 ^ 53" unfolding q_def by (rule fl_err [OF x0])
    moreover have "x / 2 ^ 53 \<le> x" using x0 by (simp add: field_simps)
    ultimately show ?thesis by linarith
  qed
  have q2: "q \<le> 2" using b1 x1 u by linarith
  have q100: "0 \<le> q * 100" using q0 by simp
  have "\<bar>y - q * 100\<bar> \<le> q * 100 / 2 ^ 53"
    unfolding y_def by (rule fl_err [OF q100])
  also have "\<dots> = (q * 100) * u" by (simp add: u_def)
  also have "\<dots> \<le> 200 * u" using q2 u(1) by (intro mult_right_mono) simp_all
  finally have b2: "\<bar>y - q * 100\<bar> \<le> 200 * u" .
  have b3: "\<bar>y - 100 * x\<bar> < 1 / 8" using b1 b2 u by linarith
  have "of_int k \<le> y + 1 / 2" "y + 1 / 2 < of_int k + 1"
    unfolding k_def by linarith+
  with b3 have "\<bar>of_int k - 100 * x\<bar> < 5 / 8" by linarith
  moreover have "percentage c t = Num (of_int k)"
    using assms(2)
    by (simp add: percentage_def js_div_def js_times_def Math_round_def x_def q_def y_def k_def)
  ultimately show ?thesis unfolding x_def by blast
qed

lemma four_percentages:
  fixes k1 k2 k3 k4 :: int and c1 c2 c3 c4 t :: nat
  assumes "c1 + c2 + c3 + c4 = t" and "0 < t"
    and "\<bar>of_int k1 - 100 * (of_nat c1 / of_nat t)\<bar> < (5 / 8 :: rat)"
    and "\<bar>of_int k2 - 100 * (of_nat c2 / of_nat t)\<bar> < (5 / 8 :: rat)"
    and "\<bar>of_int k3 - 100 * (of_nat c3 / of_nat t)\<bar> < (5 / 8 :: rat)"
    and "\<bar>of_int k4 - 100 * (of_nat c4 / of_nat t)\<bar> < (5 / 8 :: rat)"
  shows "98 \<le> k1 + k2 + k3 + k4 \<and> k1 + k2 + k3 + k4 \<le> 102"
proof -
  define r1 r2 r3 r4 :: rat where
    "r1 = of_nat c1 / of_nat t" and "r2 = of_nat c2 / of_nat t"
    and "r3 = of_nat c3 / of_nat t" and "r4 = of_nat c4 / of_nat t"
  have "(of_nat c1 + of_nat c2 + of_nat c3 + of_nat c4 :: rat) = of_nat t"
    using assms(1) by (simp flip: of_nat_add)
  then have one: "r1 + r2 + r3 + r4 = 1"
    using assms(2) unfolding r1_def r2_def r3_def r4_def
    by (simp flip: add_divide_distrib)
  have "\<bar>(of_int k1 + of_int k2 + of_int k3 + of_int k4 :: rat) - 100\<bar> < 5 / 2"
    using assms(3-6) one unfolding r1_def [symmetric] r2_def [symmetric] r3_def [symmetric]
      r4_def [symmetric] by linarith
  then have "(97 :: rat) < of_int k1 + of_int k2 + of_int k3 + of_int k4"
    and "(of_int k1 + of_int k2 + of_int k3 + of_int k4 :: rat) < 103"
    by linarith+
  then have "(of_int 97 :: rat) < of_int (k1 + k2 + k3 + k4)"
    and "(of_int (k1 + k2 + k3 + k4) :: rat) < of_int 103"
    by simp_all
  then have "97 < k1 + k2 + k3 + k4" "k1 + k2 + k3 + k4 < 103"
    by (simp_all only: of_int_less_iff)
  then show ?thesis by simp
qed

lemma band_of_hours:
  "h < 24 \<Longrightarrow>
     (band_of h = Morning \<longleftrightarrow> 6 \<le> h \<and> h < 12) \<and> (band_of h = Afternoon \<longleftrightarrow> 12 \<le> h \<and> h < 18)
     \<and> (band_of h = Evening \<longleftrightarrow> 18 \<le> h \<and> h < 24) \<and> (band_of h = Night \<longleftrightarrow> h < 6)"
  by (auto simp: band_of_def)

lemma band_posts_counts:
  "band_count 0 Morning band_posts = 1" "band_count 0 Afternoon band_posts = 1"
  "band_count 0 Evening band_posts = 1" "band_count 0 Night band_posts = 5"
  by (simp_all add: band_count_def band_posts_def status_def band_of_def getHours_def at_hour_def
      local_time_def msPerDay_def)

lemma band_posts_filter: "filter (\<lambda>toot. \<not> reblog toot) band_posts = band_posts"
  by (simp add: band_posts_def status_def)

lemma percentage_eighths: "percentage 1 8 = Num 13" "percentage 5 8 = Num 63"
  by code_simp+

text \<open>
  The sum of the four percentages reaches 98 as well: of 200 posts with 57, 57, 57 and 29
  in the four bands, \<open>57 / 200 * 100\<close> is rounded to a number just below 28.5 and
  \<open>29 / 200 * 100\<close> to one just below 14.5.
\<close>

lemma percentage_two_hundredths: "percentage 57 200 = Num 28" "percentage 29 200 = Num 14"
  by code_simp+

section \<open>The streak of four days in January 2025\<close>

lemma compute_stats_longestStreak:
  "longestStreak (compute_stats tz toots) =
     longest_streak tz (filter (\<lambda>toot. \<not> reblog toot) toots)"
  by (simp add: compute_stats_def Let_def)

lemmas date_eval = toDateString_def at_hour_def msPerDay_def local_day_def local_time_def
  civil_from_days_def week_day_def weekdays_en_def months_en_def pad0_def Let_def

lemma january_date_strings:
  "toDateString 0 (at_hour 20089 12) = ascii ''Wed Jan 01 2025''"
  "toDateString 0 (at_hour 20090 12) = ascii ''Thu Jan 02 2025''"
  "toDateString 0 (at_hour 20091 12) = ascii ''Fri Jan 03 2025''"
  "toDateString 0 (at_hour 20093 12) = ascii ''Sun Jan 05 2025''"
  unfolding date_eval by (simp_all add: dec_digit dec_more ascii_def)

lemmas parse_eval = parse_date_string_def legacy_year_def month_index_def months_en_def
  parse_nat_def is_digit_def digits_value_def days_from_civil_def Let_def

lemma january_dates_parsed:
  "parse_date_string 0 (ascii ''Wed Jan 01 2025'') = Some (20089 * msPerDay)"
  "parse_date_string 0 (ascii ''Thu Jan 02 2025'') = Some (20090 * msPerDay)"
  "parse_date_string 0 (ascii ''Fri Jan 03 2025'') = Some (20091 * msPerDay)"
  "parse_date_string 0 (ascii ''Sun Jan 05 2025'') = Some (20093 * msPerDay)"
  unfolding parse_eval by (simp_all add: ascii_def msPerDay_def)

lemma january_sorted:
  "sort [ascii ''Wed Jan 01 2025'', ascii ''Thu Jan 02 2025'', ascii ''Fri Jan 03 2025'',
         ascii ''Sun Jan 05 2025'']
   = [ascii ''Fri Jan 03 2025'', ascii ''Sun Jan 05 2025'', ascii ''Thu Jan 02 2025'',
      ascii ''Wed Jan 01 2025'']"
  by (simp add: ascii_def)

lemma january_unique:
  "set_values [ascii ''Fri Jan 03 2025'', ascii ''Sun Jan 05 2025'', ascii ''Thu Jan 02 2025'',
      ascii ''Wed Jan 01 2025'']
   = [ascii ''Fri Jan 03 2025'', ascii ''Sun Jan 05 2025'', ascii ''Thu Jan 02 2025'',
      ascii ''Wed Jan 01 2025'']"
  by (simp add: set_values_def ascii_def)

lemma january_diffs:
  "date_diff 0 (ascii ''Fri Jan 03 2025'') (ascii ''Sun Jan 05 2025'') = Some 2"
  "date_diff 0 (ascii ''Sun Jan 05 2025'') (ascii ''Thu Jan 02 2025'') = Some (- 3)"
  "date_diff 0 (ascii ''Thu Jan 02 2025'') (ascii ''Wed Jan 01 2025'') = Some (- 1)"
  by (simp_all add: date_diff_def january_dates_parsed msPerDay_def)

section \<open>The hashtag map\<close>

lemma first_seen_snoc:
  "first_seen (xs @ [x]) = (if x \<in> set xs then first_seen xs else first_seen xs @ [x])"
  by (simp add: first_seen_def)

lemma set_first_seen [simp]: "set (first_seen xs) = set xs"
  by (simp add: first_seen_def)

lemma distinct_first_seen [simp]: "distinct (first_seen xs)"
  by (simp add: first_seen_def)

lemma set_key_order [simp]: "set (key_order ks) = set ks"
  by (auto simp: key_order_def)

lemma distinct_key_order [simp]: "distinct (key_order ks)"
  by (auto simp: key_order_def distinct_map_filter)

text \<open>A canonical numeral is determined by its value.\<close>

lemma digits_value_snoc: "digits_value (s @ [c]) = 10 * digits_value s + (c - 48)"
  by (simp add: digits_value_def)

lemma foldl_digits_ge: "(a::nat) \<le> foldl (\<lambda>a c. 10 * a + (c - 48)) a s"
proof (induction s arbitrary: a)
  case Nil
  show ?case by simp
next
  case (Cons c s)
  have "a \<le> 10 * a + (c - 48)" by simp
  also have "\<dots> \<le> foldl (\<lambda>a c. 10 * a + (c - 48)) (10 * a + (c - 48)) s" by (rule Cons.IH)
  finally show ?case by simp
qed

lemma digits_value_pos:
  assumes "s \<noteq> []" "list_all is_digit s" "hd s \<noteq> 48"
  shows "0 < digits_value s"
proof -
  obtain c r where s: "s = c # r" using assms(1) by (cases s) auto
  with assms have "49 \<le> c" by (simp add: is_digit_def)
  then have "1 \<le> 10 * 0 + (c - 48)" by simp
  also have "\<dots> \<le> foldl (\<lambda>a c. 10 * a + (c - 48)) (10 * 0 + (c - 48)) r" by (rule foldl_digits_ge)
  finally show ?thesis by (simp add: s digits_value_def)
qed

lemma dec_digits_value:
  assumes "s \<noteq> []" "list_all is_digit s" "hd s = 48 \<longrightarrow> s = [48]"
  shows "dec (digits_value s) = s"
  using assms
proof (induction s rule: rev_induct)
  case Nil
  then show ?case by simp
next
  case (snoc c s)
  have c: "48 \<le> c" "c \<le> 57" using snoc.prems(2) by (simp_all add: is_digit_def)
  show ?case
  proof (cases "s = []")
    case True
    with c show ?thesis by (simp add: digits_value_def dec_digit)
  next
    case False
    then have hd: "hd (s @ [c]) = hd s" by simp
    with snoc.prems(3) False have nz: "hd s \<noteq> 48" by auto
    have digs: "list_all is_digit s" using snoc.prems(2) by simp
    have pos: "0 < digits_value s" by (rule digits_value_pos [OF False digs nz])
    have IH: "dec (digits_value s) = s" using snoc.IH [OF False digs] nz by simp
    define d where "d = c - 48"
    have d: "d < 10" "c = 48 + d" using c by (simp_all add: d_def)
    have "10 \<le> 10 * digits_value s + d" using pos by simp
    then have "dec (10 * digits_value s + d)
       = dec ((10 * digits_value s + d) div 10) @ [48 + (10 * digits_value s + d) mod 10]"
      by (rule dec_more)
    also have "(10 * digits_value s + d) div 10 = digits_value s" using d(1) by simp
    also have "(10 * digits_value s + d) mod 10 = d" using d(1) by simp
    finally have "dec (10 * digits_value s + d) = s @ [c]" using IH d(2) by simp
    then show ?thesis by (simp add: digits_value_snoc d_def)
  qed
qed

lemma digits_value_inj:
  assumes "is_array_index a" "is_array_index b" "digits_value a = digits_value b"
  shows "a = b"
proof -
  have a: "a \<noteq> []" "list_all is_digit a" "hd a = 48 \<longrightarrow> a = [48]"
    using assms(1) unfolding is_array_index_def by blast+
  have b: "b \<noteq> []" "list_all is_digit b" "hd b = 48 \<longrightarrow> b = [48]"
    using assms(2) unfolding is_array_index_def by blast+
  have "a = dec (digits_value a)" by (rule dec_digits_value [OF a, symmetric])
  also have "\<dots> = dec (digits_value b)" by (simp only: assms(3))
  also have "\<dots> = b" by (rule dec_digits_value [OF b])
  finally show ?thesis .
qed

text \<open>Counting the keys one by one builds the entries in key order.\<close>

lemma map_of_entries:
  "map_of (map (\<lambda>x. (x, f x)) L) k = (if k \<in> set L then Some (f k) else None)"
  by (induction L) auto

lemma obj_update_entries:
  "distinct L \<Longrightarrow>
   obj_update (map (\<lambda>x. (x, f x)) L) k v = map (\<lambda>x. (x, if x = k then v else f x)) L"
  by (induction L) auto

lemma obj_add_index_entries:
  assumes "\<forall>x \<in> set S. is_array_index x" and "\<forall>x \<in> set N. \<not> is_array_index x"
    and "k \<notin> set S" and "k \<notin> set N"
  shows "obj_add_index (map (\<lambda>x. (x, f x)) (S @ N)) k v
         = map (\<lambda>x. (x, if x = k then v else f x)) (insort_key digits_value k S @ N)"
  using assms
proof (induction S)
  case Nil
  then show ?case by (cases N) auto
next
  case (Cons s S)
  then show ?case by auto
qed

lemma sort_key_snoc:
  "f x \<notin> f ` set xs \<Longrightarrow> sort_key f (xs @ [x]) = insort_key f x (sort_key f xs)"
proof (induction xs)
  case Nil
  show ?case by simp
next
  case (Cons a xs)
  then have "f a \<noteq> f x" by auto
  with Cons show ?case
    by (simp add: insort_key_left_comm)
qed

lemma count_list_snoc: "count_list (ks @ [k]) x = count_list ks x + (if x = k then 1 else 0)"
  by (induction ks) auto

lemma bump_entries: "bump (frequency_entries ks) k = frequency_entries (ks @ [k])"
proof -
  let ?fs = "first_seen ks"
  let ?I = "filter is_array_index ?fs"
  let ?N = "filter (\<lambda>k. \<not> is_array_index k) ?fs"
  let ?S = "sort_key digits_value ?I"
  have get: "obj_get (frequency_entries ks) k = (if k \<in> set ks then Some (count_list ks k) else None)"
    by (simp add: obj_get_def frequency_entries_def map_of_entries)
  show ?thesis
  proof (cases "k \<in> set ks")
    case True
    then have ko: "key_order (ks @ [k]) = key_order ks"
      by (simp add: key_order_def first_seen_snoc)
    have "bump (frequency_entries ks) k
            = obj_update (frequency_entries ks) k (count_list ks k + 1)"
      using True by (simp add: bump_def obj_set_def get)
    also have "\<dots> = map (\<lambda>x. (x, if x = k then count_list ks k + 1 else count_list ks x)) (key_order ks)"
      unfolding frequency_entries_def by (rule obj_update_entries) simp
    also have "\<dots> = frequency_entries (ks @ [k])"
      unfolding frequency_entries_def ko by (rule map_cong) (auto simp: count_list_snoc)
    finally show ?thesis .
  next
    case False
    then have c0: "count_list ks k = 0" by (simp add: count_list_0_iff)
    have fs: "first_seen (ks @ [k]) = ?fs @ [k]" using False by (simp add: first_seen_snoc)
    have same: "map (\<lambda>x. (x, if x = k then 1 else count_list ks x)) L
                = map (\<lambda>x. (x, count_list (ks @ [k]) x)) L" for L
      by (rule map_cong) (auto simp: count_list_snoc c0)
    show ?thesis
    proof (cases "is_array_index k")
      case idx: True
      have inj: "digits_value k \<notin> digits_value ` set ?I"
      proof
        assume "digits_value k \<in> digits_value ` set ?I"
        then obtain a where a: "a \<in> set ?I" "digits_value k = digits_value a" by auto
        then have "is_array_index a" by simp
        from digits_value_inj [OF idx this a(2)] a(1) False show False by simp
      qed
      have ko: "key_order (ks @ [k]) = insort_key digits_value k ?S @ ?N"
        using idx by (simp add: key_order_def fs sort_key_snoc [OF inj])
      have "bump (frequency_entries ks) k = obj_add_index (frequency_entries ks) k 1"
        using False idx by (simp add: bump_def obj_set_def get)
      also have "\<dots> = map (\<lambda>x. (x, if x = k then 1 else count_list ks x))
                          (insort_key digits_value k ?S @ ?N)"
        unfolding frequency_entries_def key_order_def
        using False by (intro obj_add_index_entries) auto
      also have "\<dots> = frequency_entries (ks @ [k])"
        unfolding frequency_entries_def ko by (rule same)
      finally show ?thesis .
    next
      case nidx: False
      have ko: "key_order (ks @ [k]) = key_order ks @ [k]"
        using nidx by (simp add: key_order_def fs)
      have "bump (frequency_entries ks) k = frequency_entries ks @ [(k, 1)]"
        using False nidx by (simp add: bump_def obj_set_def get)
      also have "\<dots> = map (\<lambda>x. (x, if x = k then 1 else count_list ks x)) (key_order ks @ [k])"
        using False by (auto simp: frequency_entries_def)
      also have "\<dots> = frequency_entries (ks @ [k])"
        unfolding frequency_entries_def ko by (rule same)
      finally show ?thesis .
    qed
  qed
qed

lemma foldl_bump_entries: "foldl bump [] ks = frequency_entries ks"
proof (induction ks rule: rev_induct)
  case Nil
  show ?case by (simp add: frequency_entries_def key_order_def first_seen_def)
next
  case (snoc k ks)
  then show ?case by (simp add: bump_entries)
qed

lemma tally_toot_hashtagMap:
  "hashtagMap (tally_toot tz a t) = foldl bump_tag (hashtagMap a) (hashtags_of (strip_tags (content t)))"
  by (simp add: tally_toot_def Let_def)

lemma foldl_tally_hashtagMap:
  "hashtagMap (foldl (tally_toot tz) a ts) =
     foldl bump_tag (hashtagMap a) (concat (map (\<lambda>t. hashtags_of (strip_tags (content t))) ts))"
  by (induction ts arbitrary: a) (simp_all add: tally_toot_hashtagMap)

lemma compute_stats_topHashtags:
  "topHashtags (compute_stats tz toots) =
     map_option (\<lambda>m. take 5 (by_count_desc m))
       (foldl bump_tag (Some []) (hashtag_occurrences toots))"
  by (simp add: compute_stats_def Let_def foldl_tally_hashtagMap tally_init_def
      hashtag_occurrences_def)

lemma foldl_bump_tag:
  "ascii ''constructor'' \<notin> set ks \<Longrightarrow>
   foldl bump_tag (Some m) ks = Some (foldl bump m (filter (\<lambda>k. k \<noteq> ascii ''__proto__'') ks))"
  by (induction ks arbitrary: m) (auto simp: bump_tag_def)

lemma word_matches_shape:
  "w \<in> set (word_matches p s) \<Longrightarrow> w \<noteq> [] \<and> list_all is_word w"
proof (induction p s rule: word_matches.induct)
  case (1 p)
  then show ?case by simp
next
  case (2 p c cs)
  then show ?case
    by (auto simp: list_all_iff split: if_splits dest: set_takeWhileD)
qed

lemma to_lower_word: "is_word c \<Longrightarrow> is_word (to_lower c) \<and> \<not> (65 \<le> to_lower c \<and> to_lower c \<le> 90)"
  by (auto simp: is_word_def to_lower_def)

lemma hashtags_of_shape:
  assumes "k \<in> set (hashtags_of text)"
  shows "k \<noteq> [] \<and> list_all (\<lambda>c. is_word c \<and> \<not> (65 \<le> c \<and> c \<le> 90)) k"
proof -
  from assms obtain w where w: "w \<in> set (word_matches 35 text)" "k = toLowerCase w"
    by (auto simp: hashtags_of_def)
  from word_matches_shape [OF w(1)] have "w \<noteq> []" and "\<forall>c \<in> set w. is_word c"
    by (simp_all add: list_all_iff)
  then show ?thesis
    using to_lower_word by (simp add: w(2) toLowerCase_def list_all_iff)
qed

lemma key_order_no_index:
  "\<forall>k \<in> set ks. \<not> is_array_index k \<Longrightarrow> key_order ks = first_seen ks"
  by (simp add: key_order_def filter_empty_conv)

lemma tag_posts_occurrences:
  "hashtag_occurrences tag_posts
     = [ascii ''a'', ascii ''foo'', ascii ''a'', ascii ''b'', ascii ''foo'']"
  by code_simp

lemma tag_posts_ranking:
  "take 5 (sort_key (\<lambda>e. - int (snd e))
     (map (\<lambda>k. (k, count_list [ascii ''a'', ascii ''foo'', ascii ''a'', ascii ''b'', ascii ''foo''] k))
        (key_order [ascii ''a'', ascii ''foo'', ascii ''a'', ascii ''b'', ascii ''foo''])))
   = [(ascii ''a'', 2), (ascii ''foo'', 2), (ascii ''b'', 1)]"
  by code_simp

lemma year_post_occurrences:
  "hashtag_occurrences year_post = [ascii ''foo'', ascii ''2024'']"
  by code_simp

lemma year_post_map:
  "map_option (\<lambda>m. take 5 (by_count_desc m))
       (foldl bump_tag (Some []) [ascii ''foo'', ascii ''2024''])
   = Some [(ascii ''2024'', 1), (ascii ''foo'', 1)]"
  by code_simp

section \<open>The retrieval loop\<close>

lemma failed_iff: "failed resp \<longleftrightarrow> (\<forall>p. resp \<noteq> Ok p)"
  by (cases resp) (simp_all add: failed_def)

lemma fetches_append [simp]: "fetches (xs @ ys) = fetches xs @ fetches ys"
  by (induction xs rule: fetches.induct) simp_all

lemma progress_of_append [simp]: "progress_of (xs @ ys) = progress_of xs @ progress_of ys"
  by (induction xs rule: progress_of.induct) simp_all

lemma puts_append [simp]: "puts (xs @ ys) = puts xs @ puts ys"
  by (induction xs rule: puts.induct) simp_all

text \<open>One pass: what it does to the state, case by case.\<close>

lemma import_page_failed:
  assumes "\<forall>p. env_fetch e (request_cursor (maxId r)) \<noteq> Ok p"
  shows "\<exists>msg. import_page e cutoff r
           = Inl (msg, r\<lparr>page := page r + 1, effects := effects r @ [Fetch (request_cursor (maxId r))]\<rparr>)"
  using assms by (cases "env_fetch e (request_cursor (maxId r))") (simp_all add: import_page_def)

lemma import_page_empty:
  assumes "env_fetch e (request_cursor (maxId r)) = Ok []"
  shows "import_page e cutoff r
           = Inr (r\<lparr>page := page r + 1, effects := effects r @ [Fetch (request_cursor (maxId r))],
                   hasMore := False\<rparr>)"
  using assms by (simp add: import_page_def)

lemma import_page_last:
  assumes "env_fetch e (request_cursor (maxId r)) = Ok p" and "p \<noteq> []"
    and "created_at (last p) < cutoff"
  shows "import_page e cutoff r
           = Inr (r\<lparr>page := page r + 1,
                   effects := effects r @ [Fetch (request_cursor (maxId r)),
                                Progress (min 95 ((page r + 1) * 10)), Sleep 1000],
                   allToots := allToots r @ filter (\<lambda>toot. created_at toot \<ge> cutoff) p,
                   hasMore := False,
                   progress := min 95 ((page r + 1) * 10)\<rparr>)"
  using assms by (simp add: import_page_def Let_def last_conv_nth)

lemma import_page_more:
  assumes "env_fetch e (request_cursor (maxId r)) = Ok p" and "p \<noteq> []"
    and "\<not> created_at (last p) < cutoff"
  shows "import_page e cutoff r
           = Inr (r\<lparr>page := page r + 1,
                   effects := effects r @ [Fetch (request_cursor (maxId r)),
                                Progress (min 95 ((page r + 1) * 10)), Sleep 1000],
                   allToots := allToots r @ filter (\<lambda>toot. created_at toot \<ge> cutoff) p,
                   maxId := Some (toot_id (last p)),
                   progress := min 95 ((page r + 1) * 10)\<rparr>)"
  using assms by (simp add: import_page_def Let_def last_conv_nth)

lemma run_ok_init: "run_ok e run_init"
  by (simp add: run_ok_def run_init_def)

lemma page_cases:
  obtains (failed) "\<forall>p. env_fetch e (request_cursor (maxId r)) \<noteq> Ok p"
  | (empty) "env_fetch e (request_cursor (maxId r)) = Ok []"
  | (last) p where "env_fetch e (request_cursor (maxId r)) = Ok p" "p \<noteq> []"
      "created_at (last p) < cutoff"
  | (more) p where "env_fetch e (request_cursor (maxId r)) = Ok p" "p \<noteq> []"
      "\<not> created_at (last p) < cutoff"
proof (cases "env_fetch e (request_cursor (maxId r))")
  case (Rejected msg)
  then show ?thesis by (intro failed) simp
next
  case NotOk
  then show ?thesis by (intro failed) simp
next
  case (Ok p)
  show ?thesis
  proof (cases "p = []")
    case True
    with Ok show ?thesis by (intro empty) simp
  next
    case False
    with Ok show ?thesis by (cases "created_at (last p) < cutoff") (auto intro: last more)
  qed
qed

lemma min_progress_mono: "min 95 (n * 10) \<le> min (95::nat) ((n + 1) * 10)"
  by simp

lemma import_page_ok:
  assumes ok: "run_ok e r" and step: "import_page e cutoff r = Inr r'"
  shows "run_ok e r'"
proof (cases rule: page_cases [where e = e and r = r and cutoff = cutoff])
  case failed
  from import_page_failed [OF failed, of cutoff] step show ?thesis by auto
next
  case empty
  from import_page_empty [OF empty, of cutoff] step ok empty show ?thesis
    by (auto simp: run_ok_def failed_def)
next
  case (last p)
  have "list_all (\<lambda>q. q \<le> min 95 ((page r + 1) * 10)) (progress_of (effects r))"
    using ok min_progress_mono [of "page r"] by (auto simp: run_ok_def list_all_iff)
  with import_page_last [OF last] step ok last(1) show ?thesis
    by (auto simp: run_ok_def sorted_append list_all_iff failed_def)
next
  case (more p)
  have "list_all (\<lambda>q. q \<le> min 95 ((page r + 1) * 10)) (progress_of (effects r))"
    using ok min_progress_mono [of "page r"] by (auto simp: run_ok_def list_all_iff)
  with import_page_more [OF more] step ok more(1) show ?thesis
    by (auto simp: run_ok_def sorted_append list_all_iff failed_def)
qed

text \<open>A pass that throws has made one request, which failed, and nothing else.\<close>

lemma import_page_thrown:
  assumes "import_page e cutoff r = Inl (msg, r')"
  shows "r' = r\<lparr>page := page r + 1, effects := effects r @ [Fetch (request_cursor (maxId r))]\<rparr>
         \<and> (\<forall>p. env_fetch e (request_cursor (maxId r)) \<noteq> Ok p)"
proof (cases rule: page_cases [where e = e and r = r and cutoff = cutoff])
  case failed
  from import_page_failed [OF failed, of cutoff] assms failed show ?thesis by auto
next
  case empty
  from import_page_empty [OF empty, of cutoff] assms show ?thesis by simp
next
  case (last p)
  from import_page_last [OF last] assms show ?thesis by simp
next
  case (more p)
  from import_page_more [OF more] assms show ?thesis by simp
qed

lemma import_steps_ok:
  "run_ok e r \<Longrightarrow> import_steps e cutoff n r = Inr r' \<Longrightarrow> run_ok e r'"
proof (induction n arbitrary: r)
  case 0
  then show ?case by simp
next
  case (Suc n)
  show ?case
  proof (cases "hasMore r")
    case False
    with Suc.prems show ?thesis by simp
  next
    case True
    show ?thesis
    proof (cases "import_page e cutoff r")
      case (Inl err)
      with True Suc.prems show ?thesis by simp
    next
      case (Inr r1)
      with True Suc.prems have "import_steps e cutoff n r1 = Inr r'" by simp
      moreover have "run_ok e r1" using Suc.prems(1) Inr by (rule import_page_ok)
      ultimately show ?thesis by (rule Suc.IH [rotated])
    qed
  qed
qed

text \<open>A run that throws: the state before the failing request was in order.\<close>

lemma import_steps_thrown:
  "run_ok e r \<Longrightarrow> import_steps e cutoff n r = Inl (msg, r') \<Longrightarrow>
   \<exists>r0. run_ok e r0 \<and> hasMore r0
        \<and> r' = r0\<lparr>page := page r0 + 1, effects := effects r0 @ [Fetch (request_cursor (maxId r0))]\<rparr>
        \<and> (\<forall>p. env_fetch e (request_cursor (maxId r0)) \<noteq> Ok p)"
proof (induction n arbitrary: r)
  case 0
  then show ?case by simp
next
  case (Suc n)
  show ?case
  proof (cases "hasMore r")
    case False
    with Suc.prems show ?thesis by simp
  next
    case True
    show ?thesis
    proof (cases "import_page e cutoff r")
      case (Inl err)
      with True Suc.prems have "import_page e cutoff r = Inl (msg, r')" by simp
      from import_page_thrown [OF this] Suc.prems(1) True show ?thesis by blast
    next
      case (Inr r1)
      with True Suc.prems have "import_steps e cutoff n r1 = Inl (msg, r')" by simp
      moreover have "run_ok e r1" using Suc.prems(1) Inr by (rule import_page_ok)
      ultimately show ?thesis by (rule Suc.IH [rotated])
    qed
  qed
qed

text \<open>The loop and the bounded run.\<close>

lemma import_loop_steps:
  assumes "import_loop e cutoff r = Some res"
  shows "\<exists>n. import_steps e cutoff n r = res \<and> (\<forall>r'. res = Inr r' \<longrightarrow> \<not> hasMore r')"
proof (rule import_loop.raw_induct [OF _ assms, where P = "\<lambda>e cutoff r res.
    \<exists>n. import_steps e cutoff n r = res \<and> (\<forall>r'. res = Inr r' \<longrightarrow> \<not> hasMore r')"], goal_cases)
  case (1 loop e cutoff r res)
  show ?case
  proof (cases "hasMore r")
    case False
    with 1(2) have "res = Inr r" by simp
    with False have "import_steps e cutoff 0 r = res \<and> (\<forall>r'. res = Inr r' \<longrightarrow> \<not> hasMore r')"
      by simp
    then show ?thesis by blast
  next
    case True
    show ?thesis
    proof (cases "import_page e cutoff r")
      case (Inl err)
      with True 1(2) have "res = Inl err" by simp
      with True Inl have "import_steps e cutoff (Suc 0) r = res
          \<and> (\<forall>r'. res = Inr r' \<longrightarrow> \<not> hasMore r')" by simp
      then show ?thesis by blast
    next
      case (Inr r1)
      with True 1(2) have "loop e cutoff r1 = Some res" by simp
      from 1(1) [OF this] obtain n where
        "import_steps e cutoff n r1 = res \<and> (\<forall>r'. res = Inr r' \<longrightarrow> \<not> hasMore r')" by blast
      with True Inr have "import_steps e cutoff (Suc n) r = res
          \<and> (\<forall>r'. res = Inr r' \<longrightarrow> \<not> hasMore r')" by simp
      then show ?thesis by blast
    qed
  qed
qed

lemma import_steps_loop:
  "import_steps e cutoff n r = res \<Longrightarrow> (\<forall>r'. res = Inr r' \<longrightarrow> \<not> hasMore r') \<Longrightarrow>
   import_loop e cutoff r = Some res"
proof (induction n arbitrary: r)
  case 0
  then show ?case by (subst import_loop.simps) simp
next
  case (Suc n)
  show ?case
  proof (cases "hasMore r")
    case False
    with Suc.prems show ?thesis by (subst import_loop.simps) simp
  next
    case True
    show ?thesis
    proof (cases "import_page e cutoff r")
      case (Inl err)
      with True Suc.prems show ?thesis by (subst import_loop.simps) auto
    next
      case (Inr r1)
      with True Suc.prems have "import_steps e cutoff n r1 = res" by simp
      from Suc.IH [OF this Suc.prems(2)] True Inr show ?thesis
        by (subst import_loop.simps) simp
    qed
  qed
qed

lemma served_loop:
  "served e cutoff (maxId r) pages \<Longrightarrow> hasMore r \<Longrightarrow>
   \<exists>r'. import_loop e cutoff r = Some (Inr r') \<and> page r' = page r + length pages
        \<and> allToots r' = allToots r @ concat (map (filter (\<lambda>toot. created_at toot \<ge> cutoff)) pages)"
proof (induction pages arbitrary: r)
  case Nil
  then show ?case by simp
next
  case (Cons p ps)
  show ?case
  proof (cases ps)
    case Nil
    with Cons.prems have f: "env_fetch e (request_cursor (maxId r)) = Ok p" and s: "stops cutoff p"
      by simp_all
    show ?thesis
    proof (cases "p = []")
      case True
      let ?r1 = "r\<lparr>page := page r + 1, effects := effects r @ [Fetch (request_cursor (maxId r))],
                   hasMore := False\<rparr>"
      have step: "import_page e cutoff r = Inr ?r1"
        using f True by (intro import_page_empty) simp
      have "import_loop e cutoff r = import_loop e cutoff ?r1"
        using step Cons.prems(2) by (subst import_loop.simps) simp
      also have "\<dots> = Some (Inr ?r1)" by (subst import_loop.simps) simp
      finally show ?thesis using True Nil by simp
    next
      case False
      with s have old: "created_at (last p) < cutoff" by (simp add: stops_def)
      let ?r1 = "r\<lparr>page := page r + 1,
                   effects := effects r @ [Fetch (request_cursor (maxId r)),
                                Progress (min 95 ((page r + 1) * 10)), Sleep 1000],
                   allToots := allToots r @ filter (\<lambda>toot. created_at toot \<ge> cutoff) p,
                   hasMore := False,
                   progress := min 95 ((page r + 1) * 10)\<rparr>"
      have step: "import_page e cutoff r = Inr ?r1" by (rule import_page_last [OF f False old])
      have "import_loop e cutoff r = import_loop e cutoff ?r1"
        using step Cons.prems(2) by (subst import_loop.simps) simp
      also have "\<dots> = Some (Inr ?r1)" by (subst import_loop.simps) simp
      finally show ?thesis using Nil by simp
    qed
  next
    case (Cons q qs)
    with Cons.prems have f: "env_fetch e (request_cursor (maxId r)) = Ok p"
      and s: "\<not> stops cutoff p"
      and rest: "served e cutoff (Some (toot_id (last p))) ps"
      by simp_all
    from s have ne: "p \<noteq> []" and old: "\<not> created_at (last p) < cutoff"
      by (simp_all add: stops_def)
    let ?r1 = "r\<lparr>page := page r + 1,
                   effects := effects r @ [Fetch (request_cursor (maxId r)),
                                Progress (min 95 ((page r + 1) * 10)), Sleep 1000],
                   allToots := allToots r @ filter (\<lambda>toot. created_at toot \<ge> cutoff) p,
                   maxId := Some (toot_id (last p)),
                   progress := min 95 ((page r + 1) * 10)\<rparr>"
    have step: "import_page e cutoff r = Inr ?r1" by (rule import_page_more [OF f ne old])
    have "served e cutoff (maxId ?r1) ps" using rest by simp
    moreover have "hasMore ?r1" using Cons.prems(2) by simp
    ultimately obtain r' where r': "import_loop e cutoff ?r1 = Some (Inr r')"
        "page r' = page ?r1 + length ps"
        "allToots r' = allToots ?r1 @ concat (map (filter (\<lambda>toot. created_at toot \<ge> cutoff)) ps)"
      using Cons.IH [of ?r1] by blast
    have "import_loop e cutoff r = Some (Inr r')"
      using step r'(1) Cons.prems(2) by (subst import_loop.simps) simp
    with r'(2,3) show ?thesis by simp
  qed
qed

text \<open>The batch of writes.\<close>

lemma save_all_events:
  "save_all e ts db ev = (db', ev', err) \<Longrightarrow>
   fetches ev' = fetches ev \<and> progress_of ev' = progress_of ev
   \<and> (\<exists>saved. puts ev' = puts ev @ saved)"
proof (induction ts arbitrary: db ev)
  case Nil
  then show ?case by simp
next
  case (Cons t ts)
  show ?case
  proof (cases "env_put_error e t")
    case None
    with Cons.prems have "save_all e ts (store_put t db) (ev @ [Put t]) = (db', ev', err)" by simp
    from Cons.IH [OF this] show ?thesis by auto
  next
    case (Some msg)
    with Cons.prems show ?thesis by simp
  qed
qed

lemma save_all_reliable:
  "\<forall>t. env_put_error e t = None \<Longrightarrow>
   save_all e ts db ev = (foldl (\<lambda>db t. store_put t db) db ts, ev @ map Put ts, None)"
  by (induction ts arbitrary: db ev) simp_all

lemma generateWrapped_keeps:
  "db_toots (generateWrapped e a) = db_toots a" "trace (generateWrapped e a) = trace a"
  "importProgress (generateWrapped e a) = importProgress a"
  "totalToots_value (generateWrapped e a) = totalToots_value a"
  by (simp_all add: generateWrapped_def Let_def split: option.splits)

text \<open>The three ways in which \<open>startImport\<close> returns.\<close>

lemma startImport_cases:
  assumes "startImport e a = Some a'"
  obtains (thrown) msg r where "import_loop e (oneYearAgo e) run_init = Some (Inl (msg, r))"
      "db_toots a' = db_toots a" "trace a' = trace a @ [Progress 0] @ effects r"
      "error_value a' = Some (import_error msg)" "importProgress a' = progress r"
  | (store) r db ps msg where "import_loop e (oneYearAgo e) run_init = Some (Inr r)"
      "save_all e (allToots r) (db_toots a) [] = (db, ps, Some msg)"
      "db_toots a' = db" "trace a' = trace a @ [Progress 0] @ effects r @ ps"
      "error_value a' = Some (import_error msg)" "importProgress a' = progress r"
  | (finished) r db ps where "import_loop e (oneYearAgo e) run_init = Some (Inr r)"
      "save_all e (allToots r) (db_toots a) [] = (db, ps, None)"
      "db_toots a' = db" "trace a' = trace a @ [Progress 0] @ effects r @ ps @ [Progress 100]"
      "importProgress a' = 100" "totalToots_value a' = length (allToots r)"
proof (cases "import_loop e (oneYearAgo e) run_init")
  case None
  with assms show ?thesis by (simp add: startImport_def)
next
  case (Some res)
  show ?thesis
  proof (cases res)
    case (Inl err)
    obtain msg r where err: "err = (msg, r)" by (cases err)
    from assms Some Inl err have "a' = a\<lparr>isImporting := True, error_value := None, importProgress := 0,
                  trace := trace a @ [Progress 0]\<rparr>\<lparr>importProgress := progress r,
                  trace := (trace a @ [Progress 0]) @ effects r,
                  error_value := Some (import_error msg), isImporting := False\<rparr>"
      by (simp add: startImport_def)
    with Some Inl err show ?thesis by (intro thrown [of msg r]) simp_all
  next
    case (Inr r)
    obtain db ps err where sv: "save_all e (allToots r) (db_toots a) [] = (db, ps, err)"
      by (cases "save_all e (allToots r) (db_toots a) []") auto
    show ?thesis
    proof (cases err)
      case None
      from assms Some Inr sv None have "a' = (generateWrapped e
           (a\<lparr>isImporting := True, error_value := None, importProgress := 0,
                  trace := trace a @ [Progress 0]\<rparr>\<lparr>db_toots := db, totalToots_value := length (allToots r),
                              importProgress := 100, importComplete := True,
                              existingTootsCount := length (allToots r),
                              trace := (trace a @ [Progress 0]) @ effects r @ ps @ [Progress 100]\<rparr>))\<lparr>isImporting := False\<rparr>"
        by (simp add: startImport_def)
      with Some Inr sv None show ?thesis
        by (intro finished [of r db ps]) (simp_all add: generateWrapped_keeps)
    next
      case (Some msg)
      from assms \<open>import_loop e (oneYearAgo e) run_init = Some res\<close> Inr sv Some
      have "a' = a\<lparr>isImporting := True, error_value := None, importProgress := 0,
                  trace := trace a @ [Progress 0]\<rparr>\<lparr>db_toots := db, importProgress := progress r,
                           trace := (trace a @ [Progress 0]) @ effects r @ ps,
                           error_value := Some (import_error msg), isImporting := False\<rparr>"
        by (simp add: startImport_def)
      with \<open>import_loop e (oneYearAgo e) run_init = Some res\<close> Inr sv Some show ?thesis
        by (intro store [of r db ps msg]) simp_all
    qed
  qed
qed

lemma startImport_returns:
  "import_loop e (oneYearAgo e) run_init = Some res \<Longrightarrow> \<exists>a'. startImport e a = Some a'"
  by (auto simp: startImport_def Let_def split: sum.splits prod.splits option.splits)

lemma fails_after_loop:
  "fails_after e cutoff (maxId r) pages \<Longrightarrow> hasMore r \<Longrightarrow>
   \<exists>msg r'. import_loop e cutoff r = Some (Inl (msg, r'))"
proof (induction pages arbitrary: r)
  case Nil
  then have "\<forall>p. env_fetch e (request_cursor (maxId r)) \<noteq> Ok p" by (simp add: failed_iff)
  from import_page_failed [OF this, of cutoff] Nil.prems(2) show ?case
    by (subst import_loop.simps) auto
next
  case (Cons p ps)
  then have f: "env_fetch e (request_cursor (maxId r)) = Ok p"
    and s: "\<not> stops cutoff p"
    and rest: "fails_after e cutoff (Some (toot_id (last p))) ps"
    by simp_all
  from s have ne: "p \<noteq> []" and old: "\<not> created_at (last p) < cutoff"
    by (simp_all add: stops_def)
  let ?r1 = "r\<lparr>page := page r + 1,
                 effects := effects r @ [Fetch (request_cursor (maxId r)),
                              Progress (min 95 ((page r + 1) * 10)), Sleep 1000],
                 allToots := allToots r @ filter (\<lambda>toot. created_at toot \<ge> cutoff) p,
                 maxId := Some (toot_id (last p)),
                 progress := min 95 ((page r + 1) * 10)\<rparr>"
  have step: "import_page e cutoff r = Inr ?r1" by (rule import_page_more [OF f ne old])
  have "fails_after e cutoff (maxId ?r1) ps" using rest by simp
  moreover have "hasMore ?r1" using Cons.prems(2) by simp
  ultimately obtain msg r' where "import_loop e cutoff ?r1 = Some (Inl (msg, r'))"
    using Cons.IH [of ?r1] by blast
  then have "import_loop e cutoff r = Some (Inl (msg, r'))"
    using step Cons.prems(2) by (subst import_loop.simps) simp
  then show ?case by blast
qed

text \<open>What the loop leaves behind, whichever way it ends.\<close>

lemma import_loop_Inr:
  assumes "import_loop e cutoff run_init = Some (Inr r)"
  shows "run_ok e r"
proof -
  from import_loop_steps [OF assms] obtain n where "import_steps e cutoff n run_init = Inr r"
    by blast
  with run_ok_init show ?thesis by (rule import_steps_ok)
qed

lemma import_loop_Inl:
  assumes "import_loop e cutoff run_init = Some (Inl (msg, r))"
  shows "\<exists>r0. run_ok e r0
        \<and> r = r0\<lparr>page := page r0 + 1, effects := effects r0 @ [Fetch (request_cursor (maxId r0))]\<rparr>"
proof -
  from import_loop_steps [OF assms] obtain n where "import_steps e cutoff n run_init = Inl (msg, r)"
    by blast
  from import_steps_thrown [OF run_ok_init this] show ?thesis by blast
qed

text \<open>On a page that is ordered newest first the last post is the oldest.\<close>

lemma oldest_is_last:
  "sorted_wrt (\<lambda>x y. created_at x \<ge> created_at y) p \<Longrightarrow> t \<in> set p \<Longrightarrow>
   created_at (last p) \<le> created_at t"
  by (induction p) auto

section \<open>The example feed\<close>

lemma oneYearAgo_2026:
  "env_now e = at_hour 20454 12 \<Longrightarrow> env_tz e = 0 \<Longrightarrow> oneYearAgo e = at_hour 20089 12"
  unfolding oneYearAgo_def local_time_def at_hour_def msPerDay_def civil_from_days_def
    days_from_civil_def Let_def
  by simp

lemma cutoff_feed: "oneYearAgo env_feed = at_hour 20089 12"
  by (rule oneYearAgo_2026) (simp_all add: env_feed_def)

lemma cutoff_broken: "oneYearAgo env_broken = at_hour 20089 12"
  by (rule oneYearAgo_2026) (simp_all add: env_broken_def)

lemma served_feed: "served env_feed (oneYearAgo env_feed) None [page1, page2, page3]"
  unfolding cutoff_feed
  by (simp add: env_feed_def feed_def request_cursor_def stops_def page1_def page2_def page3_def
      status_def at_hour_def msPerDay_def ascii_def)

lemma feed_qualifying:
  "concat (map (filter (\<lambda>toot. created_at toot \<ge> oneYearAgo env_feed)) [page1, page2, page3])
   = page1 @ page2 @ [status ''103'' ''e'' (at_hour 20090 9)]"
  unfolding cutoff_feed
  by (simp add: page1_def page2_def page3_def status_def at_hour_def msPerDay_def)

lemma fails_broken: "fails_after env_broken (oneYearAgo env_broken) None [page1]"
  unfolding cutoff_broken
  by (simp add: env_broken_def request_cursor_def stops_def page1_def failed_def
      status_def at_hour_def msPerDay_def ascii_def)

lemma steps_feed_2:
  "progress_of (effects (run_of (import_steps env_feed (oneYearAgo env_feed) 2 run_init))) = [10, 20]"
  unfolding cutoff_feed
  by (simp add: numeral_2_eq_2 run_init_def import_page_def env_feed_def feed_def
      request_cursor_def page1_def page2_def status_def at_hour_def msPerDay_def ascii_def
      run_of_def Let_def)

section \<open>Properties of the statistics\<close>

text \<open>
  C10. If the text of every post that is not a boost is empty once the markup is
  stripped, the running minimum never leaves its initial value: \<open>shortestToot\<close> of the
  summary is \<open>Infinity\<close>, not 0. (This holds for any such collection, the non-empty ones
  of the claim included.)
\<close>

theorem shortestToot_Infinity:
  assumes "\<forall>t \<in> set (filter (\<lambda>toot. \<not> reblog toot) toots). length (strip_tags (content t)) = 0"
  shows "shortestToot (compute_stats tz toots) = Infinity"
  using assms by (simp add: compute_stats_shortestToot foldl_tally_shortest_empty tally_init_def)

theorem shortestToot_Infinity_witness:
  "filter (\<lambda>toot. \<not> reblog toot) empty_posts \<noteq> []
   \<and> list_all (\<lambda>t. length (strip_tags (content t)) = 0)
        (filter (\<lambda>toot. \<not> reblog toot) empty_posts)
   \<and> shortestToot (compute_stats 0 empty_posts) = Infinity"
proof -
  have h1: "filter (\<lambda>toot. \<not> reblog toot) empty_posts \<noteq> []"
    by (simp add: empty_posts_def status_def)
  have h2: "\<forall>t \<in> set (filter (\<lambda>toot. \<not> reblog toot) empty_posts).
              length (strip_tags (content t)) = 0"
    by (simp add: empty_posts_def status_def ascii_def)
  from shortestToot_Infinity [OF h2] h1 h2 show ?thesis
    by (simp add: list_all_iff)
qed

text \<open>
  C1 does not hold. The source has no guard for an empty input: when no post is left after
  the boosts are excluded, \<open>generateWrapped\<close> raises no error and stores a summary. The
  counterexample is a store that holds one boost.
\<close>

theorem all_boosted_summary:
  "error_value (generateWrapped env_quiet (app_init\<lparr>db_toots := boost_only\<rparr>)) = None
   \<and> wrappedData (generateWrapped env_quiet (app_init\<lparr>db_toots := boost_only\<rparr>)) \<noteq> None"
  by (simp add: generateWrapped_def Let_def env_quiet_def app_init_def)

text \<open>
  C1, amended. When no post is left after the boosts are excluded and the store can be
  read, \<open>generateWrapped\<close> reports no error and stores a summary with \<open>totalToots\<close> 0,
  \<open>totalRetoots\<close> the size of the collection, no hashtags, the fallback values of the most
  active hour (12), day (Montag) and month (Januar, 0), \<open>longestStreak\<close> 1, \<open>longestToot\<close> 0
  and \<open>shortestToot\<close> \<open>Infinity\<close>.
\<close>

theorem empty_input_summary:
  assumes "filter (\<lambda>toot. \<not> reblog toot) (db_toots a) = []"
    and "env_getAll_error e = None"
  shows "error_value (generateWrapped e a) = error_value a
    \<and> wrappedData (generateWrapped e a) = Some (compute_stats (env_tz e) (db_toots a))
    \<and> totalToots (compute_stats (env_tz e) (db_toots a)) = 0
    \<and> totalRetoots (compute_stats (env_tz e) (db_toots a)) = length (db_toots a)
    \<and> topHashtags (compute_stats (env_tz e) (db_toots a)) = Some []
    \<and> mostActiveHour (compute_stats (env_tz e) (db_toots a)) = 12
    \<and> mostActiveDay (compute_stats (env_tz e) (db_toots a)) = ascii ''Montag''
    \<and> mostActiveMonth (compute_stats (env_tz e) (db_toots a)) = (ascii ''Januar'', 0)
    \<and> longestStreak (compute_stats (env_tz e) (db_toots a)) = 1
    \<and> longestToot (compute_stats (env_tz e) (db_toots a)) = 0
    \<and> shortestToot (compute_stats (env_tz e) (db_toots a)) = Infinity"
  using assms
  by (simp add: generateWrapped_def compute_stats_def Let_def tally_init_def by_count_desc_def
      longest_streak_def set_values_def)

theorem empty_input_summary_witness:
  "filter (\<lambda>toot. \<not> reblog toot) (db_toots (app_init\<lparr>db_toots := boost_only\<rparr>)) = []
   \<and> env_getAll_error env_quiet = None
   \<and> wrappedData (generateWrapped env_quiet (app_init\<lparr>db_toots := boost_only\<rparr>))
       = Some (compute_stats 0 boost_only)
   \<and> totalToots (compute_stats 0 boost_only) = 0
   \<and> totalRetoots (compute_stats 0 boost_only) = 1
   \<and> mostActiveHour (compute_stats 0 boost_only) = 12"
proof -
  have h1: "filter (\<lambda>toot. \<not> reblog toot) (db_toots (app_init\<lparr>db_toots := boost_only\<rparr>)) = []"
    by (simp add: boost_only_def)
  have h2: "env_getAll_error env_quiet = None"
    by (simp add: env_quiet_def)
  have tz: "env_tz env_quiet = 0" by (simp add: env_quiet_def)
  have db: "db_toots (app_init\<lparr>db_toots := boost_only\<rparr>) = boost_only" by simp
  have len: "length boost_only = 1" by (simp add: boost_only_def)
  from empty_input_summary [OF h1 h2] h1 h2 show ?thesis
    unfolding tz db len by blast
qed

text \<open>
  C5. For a non-empty set of posts that are not boosts, \<open>medianLength\<close> is computed from
  the sorted lengths of the stripped texts: the middle element for an odd count, and for an
  even count the mean of the two middle elements rounded half up, which is
  \<open>(a + b + 1) div 2\<close>. (The lengths are below \<open>2^52\<close>, so that their sum is an exact
  binary64 number.) The witness has the lengths 1, 2, 3 with median 2 and the lengths
  1, 2, 3, 4 with median 3.
\<close>

theorem median_of_lengths:
  assumes ls: "ls = sort (map (\<lambda>t. length (strip_tags (content t)))
                          (filter (\<lambda>toot. \<not> reblog toot) toots))"
    and ne: "ls \<noteq> []"
    and small: "\<forall>l \<in> set ls. l < 2 ^ 52"
  shows "medianLength (compute_stats tz toots) =
     (if odd (length ls) then Num (of_nat (ls ! (length ls div 2)))
      else Num (of_nat ((ls ! (length ls div 2 - 1) + ls ! (length ls div 2) + 1) div 2)))"
proof -
  let ?raw = "map (\<lambda>t. length (strip_tags (content t))) (filter (\<lambda>toot. \<not> reblog toot) toots)"
  have raw: "?raw \<noteq> []" using ne ls by auto
  have len: "length ls = length ?raw" by (simp add: ls)
  show ?thesis
  proof (cases "odd (length ls)")
    case True
    then show ?thesis
      using median_odd [of ?raw] by (simp add: compute_stats_medianLength ls)
  next
    case False
    have pos: "0 < length ls" using ne by simp
    have i2: "length ls div 2 < length ls" using pos by simp
    then have i1: "length ls div 2 - 1 < length ls" by arith
    have "ls ! (length ls div 2 - 1) < 2 ^ 52" "ls ! (length ls div 2) < 2 ^ 52"
      using small i1 i2 nth_mem by blast+
    then have "ls ! (length ls div 2 - 1) + ls ! (length ls div 2) < 2 ^ 53" by simp
    with False median_even [OF raw] show ?thesis
      by (simp add: compute_stats_medianLength ls)
  qed
qed

theorem median_of_lengths_witness:
  "sort (map (\<lambda>t. length (strip_tags (content t))) (filter (\<lambda>toot. \<not> reblog toot) three_posts))
     = [1, 2, 3]
   \<and> medianLength (compute_stats 0 three_posts) = Num 2
   \<and> sort (map (\<lambda>t. length (strip_tags (content t))) (filter (\<lambda>toot. \<not> reblog toot) four_posts))
     = [1, 2, 3, 4]
   \<and> medianLength (compute_stats 0 four_posts) = Num 3"
proof -
  have l3: "[1, 2, 3] = sort (map (\<lambda>t. length (strip_tags (content t)))
                          (filter (\<lambda>toot. \<not> reblog toot) three_posts))"
    by (simp add: three_posts_def status_def ascii_def)
  have l4: "[1, 2, 3, 4] = sort (map (\<lambda>t. length (strip_tags (content t)))
                          (filter (\<lambda>toot. \<not> reblog toot) four_posts))"
    by (simp add: four_posts_def status_def ascii_def)
  have m3: "medianLength (compute_stats 0 three_posts) = Num 2"
    using median_of_lengths [OF l3, of 0] by simp
  have m4: "medianLength (compute_stats 0 four_posts) = Num 3"
    using median_of_lengths [OF l4, of 0] by simp
  from l3 l4 m3 m4 show ?thesis by simp
qed

text \<open>
  C7 does not hold with the bound 1. Eight posts, one in the morning, one in the afternoon,
  one in the evening and five at night, give 12.5, 12.5, 12.5 and 62.5 percent, which are
  rounded up to 13, 13, 13 and 63: the sum is 102.
\<close>

theorem band_posts_sum:
  "filter (\<lambda>toot. \<not> reblog toot) band_posts \<noteq> []
   \<and> timeDistribution (compute_stats 0 band_posts)
       = \<lparr>morning = Num 13, afternoon = Num 13, evening = Num 13, night = Num 63\<rparr>
   \<and> (13 + 13 + 13 + 63 :: int) = 102"
proof -
  have len: "length band_posts = 8" by (simp add: band_posts_def)
  have ne: "filter (\<lambda>toot. \<not> reblog toot) band_posts \<noteq> []"
    by (simp add: band_posts_def status_def)
  have "timeDistribution (compute_stats 0 band_posts)
          = \<lparr>morning = percentage 1 8, afternoon = percentage 1 8, evening = percentage 1 8,
             night = percentage 5 8\<rparr>"
    by (simp only: compute_stats_timeDistribution band_posts_filter band_posts_counts len)
  then have "timeDistribution (compute_stats 0 band_posts)
       = \<lparr>morning = Num 13, afternoon = Num 13, evening = Num 13, night = Num 63\<rparr>"
    by (simp only: percentage_eighths)
  with ne show ?thesis by simp
qed

text \<open>
  C7, amended. The local hour of a post is below 24 and falls into exactly one of the bands
  morning [6,12), afternoon [12,18), evening [18,24) and night [0,6), so the four raw
  counts add up to the number of posts that are not boosts; and for a non-empty set of such
  posts the four rounded percentages are integers whose sum differs from 100 by at most 2.
\<close>

theorem time_distribution_sum:
  assumes "filter (\<lambda>toot. \<not> reblog toot) toots \<noteq> []"
  shows "(\<forall>t. getHours tz t < 24)
    \<and> (\<forall>h<24. (band_of h = Morning \<longleftrightarrow> 6 \<le> h \<and> h < 12)
          \<and> (band_of h = Afternoon \<longleftrightarrow> 12 \<le> h \<and> h < 18)
          \<and> (band_of h = Evening \<longleftrightarrow> 18 \<le> h \<and> h < 24)
          \<and> (band_of h = Night \<longleftrightarrow> h < 6))
    \<and> band_count tz Morning (filter (\<lambda>toot. \<not> reblog toot) toots)
        + band_count tz Afternoon (filter (\<lambda>toot. \<not> reblog toot) toots)
        + band_count tz Evening (filter (\<lambda>toot. \<not> reblog toot) toots)
        + band_count tz Night (filter (\<lambda>toot. \<not> reblog toot) toots)
        = length (filter (\<lambda>toot. \<not> reblog toot) toots)
    \<and> (\<exists>m a e n :: int.
          timeDistribution (compute_stats tz toots)
            = \<lparr>morning = Num (of_int m), afternoon = Num (of_int a), evening = Num (of_int e),
               night = Num (of_int n)\<rparr>
          \<and> 98 \<le> m + a + e + n \<and> m + a + e + n \<le> 102)"
proof -
  let ?F = "filter (\<lambda>toot. \<not> reblog toot) toots"
  let ?c = "\<lambda>b. band_count tz b ?F"
  have pos: "0 < length ?F" using assms by simp
  have total: "?c Morning + ?c Afternoon + ?c Evening + ?c Night = length ?F"
    by (rule band_count_total)
  have le: "?c b \<le> length ?F" for b unfolding band_count_def by (rule length_filter_le)
  obtain m where m: "percentage (?c Morning) (length ?F) = Num (of_int m)"
      "\<bar>of_int m - 100 * (of_nat (?c Morning) / of_nat (length ?F))\<bar> < (5 / 8 :: rat)"
    using percentage_bounds [OF le pos] by blast
  obtain a where a: "percentage (?c Afternoon) (length ?F) = Num (of_int a)"
      "\<bar>of_int a - 100 * (of_nat (?c Afternoon) / of_nat (length ?F))\<bar> < (5 / 8 :: rat)"
    using percentage_bounds [OF le pos] by blast
  obtain e where e: "percentage (?c Evening) (length ?F) = Num (of_int e)"
      "\<bar>of_int e - 100 * (of_nat (?c Evening) / of_nat (length ?F))\<bar> < (5 / 8 :: rat)"
    using percentage_bounds [OF le pos] by blast
  obtain n where n: "percentage (?c Night) (length ?F) = Num (of_int n)"
      "\<bar>of_int n - 100 * (of_nat (?c Night) / of_nat (length ?F))\<bar> < (5 / 8 :: rat)"
    using percentage_bounds [OF le pos] by blast
  have sum: "98 \<le> m + a + e + n \<and> m + a + e + n \<le> 102"
    by (rule four_percentages [OF total pos m(2) a(2) e(2) n(2)])
  have td: "timeDistribution (compute_stats tz toots)
            = \<lparr>morning = Num (of_int m), afternoon = Num (of_int a), evening = Num (of_int e),
               night = Num (of_int n)\<rparr>"
    by (simp only: compute_stats_timeDistribution m(1) a(1) e(1) n(1))
  from td sum have ex: "\<exists>m a e n :: int.
          timeDistribution (compute_stats tz toots)
            = \<lparr>morning = Num (of_int m), afternoon = Num (of_int a), evening = Num (of_int e),
               night = Num (of_int n)\<rparr>
          \<and> 98 \<le> m + a + e + n \<and> m + a + e + n \<le> 102"
    by blast
  show ?thesis
    using getHours_less band_of_hours total ex by blast
qed

theorem time_distribution_sum_witness:
  "filter (\<lambda>toot. \<not> reblog toot) band_posts \<noteq> []
   \<and> band_count 0 Morning (filter (\<lambda>toot. \<not> reblog toot) band_posts)
        + band_count 0 Afternoon (filter (\<lambda>toot. \<not> reblog toot) band_posts)
        + band_count 0 Evening (filter (\<lambda>toot. \<not> reblog toot) band_posts)
        + band_count 0 Night (filter (\<lambda>toot. \<not> reblog toot) band_posts) = 8
   \<and> (\<exists>m a e n :: int.
          timeDistribution (compute_stats 0 band_posts)
            = \<lparr>morning = Num (of_int m), afternoon = Num (of_int a), evening = Num (of_int e),
               night = Num (of_int n)\<rparr>
          \<and> 98 \<le> m + a + e + n \<and> m + a + e + n \<le> 102)"
proof -
  have h: "filter (\<lambda>toot. \<not> reblog toot) band_posts \<noteq> []"
    by (simp add: band_posts_def status_def)
  have len: "length (filter (\<lambda>toot. \<not> reblog toot) band_posts) = 8"
    by (simp add: band_posts_def status_def)
  from time_distribution_sum [OF h, of 0] h show ?thesis
    unfolding len by blast
qed

text \<open>
  C3, evaluated. \<open>dates\<close> holds the strings of \<open>toDateString()\<close>, and the default
  \<open>sort()\<close> orders strings by their characters, so by the name of the weekday first.
  For posts on 1, 2, 3 and 5 January 2025 (Wednesday, Thursday, Friday, Sunday) the sorted
  dates are 3, 5, 2 and 1 January, no two neighbours are one day apart, and the longest
  streak comes out as 1, where three days in a row carry a post.
\<close>

theorem january_streak:
  "map (\<lambda>t. toDateString 0 (created_at t)) january_posts
     = [ascii ''Wed Jan 01 2025'', ascii ''Thu Jan 02 2025'', ascii ''Fri Jan 03 2025'',
        ascii ''Sun Jan 05 2025'']
   \<and> longestStreak (compute_stats 0 january_posts) = 1"
proof -
  have f: "filter (\<lambda>toot. \<not> reblog toot) january_posts = january_posts"
    by (simp add: january_posts_def status_def)
  have d: "map (\<lambda>t. toDateString 0 (created_at t)) january_posts
     = [ascii ''Wed Jan 01 2025'', ascii ''Thu Jan 02 2025'', ascii ''Fri Jan 03 2025'',
        ascii ''Sun Jan 05 2025'']"
    by (simp add: january_posts_def status_def january_date_strings)
  have "longest_streak 0 january_posts = 1"
    unfolding longest_streak_def Let_def d january_sorted january_unique
    by (simp add: january_diffs)
  with f d show ?thesis by (simp add: compute_stats_longestStreak)
qed

text \<open>
  C6 does not hold for every tag. The frequency map is an object, and an object lists the
  keys that look like array indices first: in a post with \<open>#foo #2024\<close> the tag \<open>foo\<close>
  is seen first, both tags count 1, and \<open>2024\<close> is ranked first.
\<close>

theorem numeric_tag_first:
  "hashtag_occurrences year_post = [ascii ''foo'', ascii ''2024'']
   \<and> topHashtags (compute_stats 0 year_post) = Some [(ascii ''2024'', 1), (ascii ''foo'', 1)]"
  by (simp only: compute_stats_topHashtags year_post_occurrences year_post_map)

text \<open>
  C6, amended. Every hashtag is a non-empty run of word characters without capital
  letters. If none of them reads \<open>constructor\<close> or \<open>__proto__\<close>, then \<open>topHashtags\<close> holds the
  first five of the entries (tag, number of occurrences), sorted by count descending by a
  stable sort of the entries in key order: the tags that are array indices in ascending
  numeric order, then the other tags as first seen. Without such numeric tags the ties
  are broken by first-seen order alone. The witness has \<open>#a #Foo #a\<close> and \<open>#b #foo\<close>:
  \<open>a\<close> (2) and \<open>foo\<close> (2, from \<open>#Foo\<close> and \<open>#foo\<close>) come before \<open>b\<close> (1).
\<close>

theorem top_hashtags:
  assumes "tags = hashtag_occurrences toots"
    and "ascii ''constructor'' \<notin> set tags"
    and "ascii ''__proto__'' \<notin> set tags"
  shows "(\<forall>k \<in> set tags.
            k \<noteq> [] \<and> list_all (\<lambda>c. is_word c \<and> \<not> (65 \<le> c \<and> c \<le> 90)) k)
    \<and> topHashtags (compute_stats tz toots)
        = Some (take 5 (sort_key (\<lambda>e. - int (snd e))
                  (map (\<lambda>k. (k, count_list tags k)) (key_order tags))))
    \<and> ((\<forall>k \<in> set tags. \<not> is_array_index k) \<longrightarrow> key_order tags = first_seen tags)"
proof -
  have shape: "\<forall>k \<in> set tags.
            k \<noteq> [] \<and> list_all (\<lambda>c. is_word c \<and> \<not> (65 \<le> c \<and> c \<le> 90)) k"
    unfolding assms(1) by (auto simp: hashtag_occurrences_def dest: hashtags_of_shape)
  have all: "filter (\<lambda>k. k \<noteq> ascii ''__proto__'') tags = tags"
    using assms(3) by (auto simp: filter_id_conv)
  have "foldl bump_tag (Some []) tags = Some (foldl bump [] tags)"
    using foldl_bump_tag [OF assms(2), of "[]"] by (simp only: all)
  then have "topHashtags (compute_stats tz toots)
        = Some (take 5 (by_count_desc (foldl bump [] tags)))"
    by (simp add: compute_stats_topHashtags assms(1))
  then have top: "topHashtags (compute_stats tz toots)
        = Some (take 5 (sort_key (\<lambda>e. - int (snd e))
                  (map (\<lambda>k. (k, count_list tags k)) (key_order tags))))"
    by (simp add: foldl_bump_entries frequency_entries_def by_count_desc_def)
  from shape top key_order_no_index show ?thesis by blast
qed

theorem top_hashtags_witness:
  "hashtag_occurrences tag_posts
       = [ascii ''a'', ascii ''foo'', ascii ''a'', ascii ''b'', ascii ''foo'']
   \<and> ascii ''constructor'' \<notin> set (hashtag_occurrences tag_posts)
   \<and> ascii ''__proto__'' \<notin> set (hashtag_occurrences tag_posts)
   \<and> topHashtags (compute_stats 0 tag_posts)
       = Some [(ascii ''a'', 2), (ascii ''foo'', 2), (ascii ''b'', 1)]"
proof -
  have h0: "[ascii ''a'', ascii ''foo'', ascii ''a'', ascii ''b'', ascii ''foo'']
      = hashtag_occurrences tag_posts"
    by (simp only: tag_posts_occurrences)
  have h1: "ascii ''constructor''
      \<notin> set [ascii ''a'', ascii ''foo'', ascii ''a'', ascii ''b'', ascii ''foo'']"
    by (simp add: ascii_def)
  have h2: "ascii ''__proto__''
      \<notin> set [ascii ''a'', ascii ''foo'', ascii ''a'', ascii ''b'', ascii ''foo'']"
    by (simp add: ascii_def)
  from top_hashtags [OF h0 h1 h2, of 0] h1 h2 show ?thesis
    unfolding tag_posts_ranking by (simp add: tag_posts_occurrences)
qed

section \<open>Properties of the retrieval\<close>

text \<open>
  C2. Let the pages be what the server returns along the chain of cursors, up to and
  including the first page that is empty or whose oldest (last) post is older than the
  cutoff. Then the loop returns after exactly that many requests, and the posts it has
  collected are the posts of these pages that are not older than the cutoff: of the last
  page the qualifying posts only, and nothing of any later page. \<open>startImport\<close> returns
  with no further request, and with a store that accepts every write it has written
  exactly these posts. The witness is a feed of four pages whose third page ends the
  retrieval: three requests, and of the third page its first post only.
\<close>

theorem pagination_stops:
  assumes "served e (oneYearAgo e) None pages"
  shows "\<exists>r a'. import_loop e (oneYearAgo e) run_init = Some (Inr r)
     \<and> page r = length pages \<and> length (fetches (effects r)) = length pages
     \<and> allToots r = concat (map (filter (\<lambda>toot. created_at toot \<ge> oneYearAgo e)) pages)
     \<and> startImport e a = Some a'
     \<and> fetches (trace a') = fetches (trace a) @ fetches (effects r)
     \<and> ((\<forall>t. env_put_error e t = None) \<longrightarrow>
          db_toots a' = foldl (\<lambda>db t. store_put t db) (db_toots a) (allToots r)
          \<and> totalToots_value a' = length (allToots r))"
proof -
  have "served e (oneYearAgo e) (maxId run_init) pages" "hasMore run_init"
    using assms by (simp_all add: run_init_def)
  from served_loop [OF this] obtain r where r:
    "import_loop e (oneYearAgo e) run_init = Some (Inr r)" "page r = length pages"
    "allToots r = concat (map (filter (\<lambda>toot. created_at toot \<ge> oneYearAgo e)) pages)"
    by (auto simp: run_init_def)
  have ok: "run_ok e r" by (rule import_loop_Inr [OF r(1)])
  then have n: "length (fetches (effects r)) = length pages"
    using r(2) by (simp add: run_ok_def)
  obtain a' where a': "startImport e a = Some a'"
    using startImport_returns [OF r(1)] by blast
  have tr: "fetches (trace a') = fetches (trace a) @ fetches (effects r)"
    using a' r(1)
  proof (cases rule: startImport_cases)
    case (thrown msg r')
    with r(1) show ?thesis by simp
  next
    case (store r' db ps msg)
    with r(1) save_all_events [OF store(2)] show ?thesis by simp
  next
    case (finished r' db ps)
    with r(1) save_all_events [OF finished(2)] show ?thesis by simp
  qed
  have db: "db_toots a' = foldl (\<lambda>db t. store_put t db) (db_toots a) (allToots r)
          \<and> totalToots_value a' = length (allToots r)" if rel: "\<forall>t. env_put_error e t = None"
    using a' r(1)
  proof (cases rule: startImport_cases)
    case (thrown msg r')
    with r(1) show ?thesis by simp
  next
    case (store r' db ps msg)
    with r(1) save_all_reliable [OF rel] show ?thesis by simp
  next
    case (finished r' db ps)
    with r(1) save_all_reliable [OF rel, of "allToots r" "db_toots a" "[]"] show ?thesis by simp
  qed
  from r n a' tr db show ?thesis by blast
qed

theorem pagination_stops_witness:
  "served env_feed (oneYearAgo env_feed) None [page1, page2, page3]
   \<and> env_fetch env_feed (Some (ascii ''102'')) = Ok page4
   \<and> (\<exists>r a'. import_loop env_feed (oneYearAgo env_feed) run_init = Some (Inr r)
        \<and> page r = 3 \<and> length (fetches (effects r)) = 3
        \<and> allToots r = page1 @ page2 @ [status ''103'' ''e'' (at_hour 20090 9)]
        \<and> startImport env_feed app_init = Some a'
        \<and> db_toots a' = foldl (\<lambda>db t. store_put t db) []
                           (page1 @ page2 @ [status ''103'' ''e'' (at_hour 20090 9)])
        \<and> totalToots_value a' = 5)"
proof -
  have rel: "\<forall>t. env_put_error env_feed t = None" by (simp add: env_feed_def)
  have p4: "env_fetch env_feed (Some (ascii ''102'')) = Ok page4"
    by (simp add: env_feed_def feed_def ascii_def)
  have len: "length (page1 @ page2 @ [status ''103'' ''e'' (at_hour 20090 9)]) = 5"
    by (simp add: page1_def page2_def)
  from pagination_stops [OF served_feed, of app_init] rel obtain r a' where
    "import_loop env_feed (oneYearAgo env_feed) run_init = Some (Inr r)"
    "page r = 3" "length (fetches (effects r)) = 3"
    "allToots r = page1 @ page2 @ [status ''103'' ''e'' (at_hour 20090 9)]"
    "startImport env_feed app_init = Some a'"
    "db_toots a' = foldl (\<lambda>db t. store_put t db) (db_toots app_init) (allToots r)"
    "totalToots_value a' = length (allToots r)"
    unfolding feed_qualifying by auto
  then show ?thesis
    using served_feed p4 len by (auto simp: app_init_def)
qed

text \<open>
  C4. If, after some pages that do not end the retrieval, a request fails, \<open>startImport\<close>
  returns with an error message and has written nothing: the store is as before. More
  generally, whenever a run that has returned has made a request that failed, the store is
  unchanged and an error is reported; and in every run that returns, all writes to the
  store come after all requests.
\<close>

theorem failed_fetch_aborts:
  "(fails_after e (oneYearAgo e) None pages \<longrightarrow>
      (\<exists>a'. startImport e a = Some a' \<and> db_toots a' = db_toots a \<and> error_value a' \<noteq> None
            \<and> puts (trace a') = puts (trace a)))
   \<and> (startImport e a = Some a'
        \<and> list_ex (\<lambda>c. failed (env_fetch e c)) (fetches (drop (length (trace a)) (trace a'))) \<longrightarrow>
      db_toots a' = db_toots a \<and> error_value a' \<noteq> None \<and> puts (trace a') = puts (trace a))
   \<and> (startImport e a = Some a' \<longrightarrow>
      (\<exists>pre post. trace a' = trace a @ pre @ post \<and> puts pre = [] \<and> fetches post = []))"
proof -
  have A: "\<exists>a'. startImport e a = Some a' \<and> db_toots a' = db_toots a \<and> error_value a' \<noteq> None
            \<and> puts (trace a') = puts (trace a)"
    if "fails_after e (oneYearAgo e) None pages"
  proof -
    from that have "fails_after e (oneYearAgo e) (maxId run_init) pages" "hasMore run_init"
      by (simp_all add: run_init_def)
    from fails_after_loop [OF this] obtain msg r where
      l: "import_loop e (oneYearAgo e) run_init = Some (Inl (msg, r))" by blast
    obtain a1 where a1: "startImport e a = Some a1"
      using startImport_returns [OF l] by blast
    from import_loop_Inl [OF l] obtain r0 where r0: "run_ok e r0"
      "r = r0\<lparr>page := page r0 + 1, effects := effects r0 @ [Fetch (request_cursor (maxId r0))]\<rparr>"
      by blast
    have "db_toots a1 = db_toots a \<and> error_value a1 \<noteq> None \<and> puts (trace a1) = puts (trace a)"
      using a1 l
    proof (cases rule: startImport_cases)
      case (thrown msg' r')
      with l r0 show ?thesis by (simp add: run_ok_def)
    next
      case (store r' db ps msg')
      with l show ?thesis by simp
    next
      case (finished r' db ps)
      with l show ?thesis by simp
    qed
    with a1 show ?thesis by blast
  qed
  have B: "db_toots a' = db_toots a \<and> error_value a' \<noteq> None \<and> puts (trace a') = puts (trace a)"
    if a': "startImport e a = Some a'"
      and ex: "list_ex (\<lambda>c. failed (env_fetch e c)) (fetches (drop (length (trace a)) (trace a')))"
    using a'
  proof (cases rule: startImport_cases)
    case (thrown msg r)
    from import_loop_Inl [OF thrown(1)] obtain r0 where r0: "run_ok e r0"
      "r = r0\<lparr>page := page r0 + 1, effects := effects r0 @ [Fetch (request_cursor (maxId r0))]\<rparr>"
      by blast
    with thrown show ?thesis by (simp add: run_ok_def)
  next
    case (store r db ps msg)
    have ok: "run_ok e r" by (rule import_loop_Inr [OF store(1)])
    from ex store(4) save_all_events [OF store(2)] ok show ?thesis
      by (auto simp: run_ok_def list_ex_iff list_all_iff)
  next
    case (finished r db ps)
    have ok: "run_ok e r" by (rule import_loop_Inr [OF finished(1)])
    from ex finished(4) save_all_events [OF finished(2)] ok show ?thesis
      by (auto simp: run_ok_def list_ex_iff list_all_iff)
  qed
  have C: "\<exists>pre post. trace a' = trace a @ pre @ post \<and> puts pre = [] \<and> fetches post = []"
    if a': "startImport e a = Some a'"
    using a'
  proof (cases rule: startImport_cases)
    case (thrown msg r)
    from import_loop_Inl [OF thrown(1)] obtain r0 where r0: "run_ok e r0"
      "r = r0\<lparr>page := page r0 + 1, effects := effects r0 @ [Fetch (request_cursor (maxId r0))]\<rparr>"
      by blast
    with thrown have "trace a' = trace a @ ([Progress 0] @ effects r) @ []
        \<and> puts ([Progress 0] @ effects r) = [] \<and> fetches [] = []"
      by (simp add: run_ok_def)
    then show ?thesis by blast
  next
    case (store r db ps msg)
    have ok: "run_ok e r" by (rule import_loop_Inr [OF store(1)])
    with store(4) save_all_events [OF store(2)]
    have "trace a' = trace a @ ([Progress 0] @ effects r) @ ps
        \<and> puts ([Progress 0] @ effects r) = [] \<and> fetches ps = []"
      by (simp add: run_ok_def)
    then show ?thesis by blast
  next
    case (finished r db ps)
    have ok: "run_ok e r" by (rule import_loop_Inr [OF finished(1)])
    with finished(4) save_all_events [OF finished(2)]
    have "trace a' = trace a @ ([Progress 0] @ effects r) @ (ps @ [Progress 100])
        \<and> puts ([Progress 0] @ effects r) = [] \<and> fetches (ps @ [Progress 100]) = []"
      by (simp add: run_ok_def)
    then show ?thesis by blast
  qed
  from A B C show ?thesis by blast
qed

theorem failed_fetch_aborts_witness:
  "fails_after env_broken (oneYearAgo env_broken) None [page1]
   \<and> (\<exists>a'. startImport env_broken (app_init\<lparr>db_toots := page4\<rparr>) = Some a'
          \<and> db_toots a' = page4 \<and> error_value a' \<noteq> None \<and> puts (trace a') = []
          \<and> (\<exists>pre post. trace a' = pre @ post \<and> puts pre = [] \<and> fetches post = []))"
proof -
  from failed_fetch_aborts [of env_broken "[page1]" "app_init\<lparr>db_toots := page4\<rparr>"] fails_broken
  obtain a' where a': "startImport env_broken (app_init\<lparr>db_toots := page4\<rparr>) = Some a'"
    "db_toots a' = db_toots (app_init\<lparr>db_toots := page4\<rparr>)" "error_value a' \<noteq> None"
    "puts (trace a') = puts (trace (app_init\<lparr>db_toots := page4\<rparr>))"
    by blast
  from failed_fetch_aborts [of env_broken "[page1]" "app_init\<lparr>db_toots := page4\<rparr>" a'] a'(1)
  obtain pre post where "trace a' = trace (app_init\<lparr>db_toots := page4\<rparr>) @ pre @ post"
    "puts pre = []" "fetches post = []"
    by blast
  with a' fails_broken show ?thesis
    by (auto simp: app_init_def)
qed

text \<open>
  C9. After any number of passes through the loop the progress values reported so far are
  non-decreasing and at most 95; and over a whole run that returns, the initial 0 and the
  final 100 of a completed import included, they are non-decreasing and at most 100, the
  last of them being the value that \<open>importProgress\<close> holds at the end.
\<close>

theorem progress_monotone:
  "sorted (progress_of (effects (run_of (import_steps e cutoff n run_init))))
   \<and> list_all (\<lambda>p. p \<le> 95) (progress_of (effects (run_of (import_steps e cutoff n run_init))))
   \<and> (startImport e a = Some a' \<longrightarrow>
        (\<exists>ev. trace a' = trace a @ ev \<and> sorted (progress_of ev)
              \<and> list_all (\<lambda>p. p \<le> 100) (progress_of ev)
              \<and> progress_of ev \<noteq> [] \<and> importProgress a' = last (progress_of ev)))"
proof -
  have steps: "sorted (progress_of (effects (run_of (import_steps e cutoff n run_init))))
     \<and> list_all (\<lambda>p. p \<le> 95) (progress_of (effects (run_of (import_steps e cutoff n run_init))))"
  proof (cases "import_steps e cutoff n run_init")
    case (Inl err)
    obtain msg r where err: "err = (msg, r)" by (cases err)
    from import_steps_thrown [OF run_ok_init Inl [unfolded err]] obtain r0 where "run_ok e r0"
      "r = r0\<lparr>page := page r0 + 1, effects := effects r0 @ [Fetch (request_cursor (maxId r0))]\<rparr>"
      by blast
    with Inl err show ?thesis
      by (auto simp: run_of_def run_ok_def list_all_iff)
  next
    case (Inr r)
    from import_steps_ok [OF run_ok_init Inr] Inr show ?thesis
      by (auto simp: run_of_def run_ok_def list_all_iff)
  qed
  have whole: "\<exists>ev. trace a' = trace a @ ev \<and> sorted (progress_of ev)
              \<and> list_all (\<lambda>p. p \<le> 100) (progress_of ev)
              \<and> progress_of ev \<noteq> [] \<and> importProgress a' = last (progress_of ev)"
    if a': "startImport e a = Some a'"
    using a'
  proof (cases rule: startImport_cases)
    case (thrown msg r)
    from import_loop_Inl [OF thrown(1)] obtain r0 where r0: "run_ok e r0"
      "r = r0\<lparr>page := page r0 + 1, effects := effects r0 @ [Fetch (request_cursor (maxId r0))]\<rparr>"
      by blast
    let ?ev = "[Progress 0] @ effects r"
    have "trace a' = trace a @ ?ev \<and> sorted (progress_of ?ev)
              \<and> list_all (\<lambda>p. p \<le> 100) (progress_of ?ev)
              \<and> progress_of ?ev \<noteq> [] \<and> importProgress a' = last (progress_of ?ev)"
      using thrown r0 by (auto simp: run_ok_def list_all_iff)
    then show ?thesis by blast
  next
    case (store r db ps msg)
    have ok: "run_ok e r" by (rule import_loop_Inr [OF store(1)])
    let ?ev = "[Progress 0] @ effects r @ ps"
    have "trace a' = trace a @ ?ev \<and> sorted (progress_of ?ev)
              \<and> list_all (\<lambda>p. p \<le> 100) (progress_of ?ev)
              \<and> progress_of ?ev \<noteq> [] \<and> importProgress a' = last (progress_of ?ev)"
      using store ok save_all_events [OF store(2)] by (auto simp: run_ok_def list_all_iff)
    then show ?thesis by blast
  next
    case (finished r db ps)
    have ok: "run_ok e r" by (rule import_loop_Inr [OF finished(1)])
    let ?ev = "[Progress 0] @ effects r @ ps @ [Progress 100]"
    have "trace a' = trace a @ ?ev \<and> sorted (progress_of ?ev)
              \<and> list_all (\<lambda>p. p \<le> 100) (progress_of ?ev)
              \<and> progress_of ?ev \<noteq> [] \<and> importProgress a' = last (progress_of ?ev)"
      using finished ok save_all_events [OF finished(2)]
      by (auto simp: run_ok_def list_all_iff sorted_append)
    then show ?thesis by blast
  qed
  from steps whole show ?thesis by blast
qed

theorem progress_monotone_witness:
  "sorted (progress_of (effects (run_of (import_steps env_feed (oneYearAgo env_feed) 2 run_init))))
   \<and> list_all (\<lambda>p. p \<le> 95)
        (progress_of (effects (run_of (import_steps env_feed (oneYearAgo env_feed) 2 run_init))))
   \<and> (\<exists>a' ev. startImport env_feed app_init = Some a' \<and> trace a' = ev
          \<and> sorted (progress_of ev) \<and> list_all (\<lambda>p. p \<le> 100) (progress_of ev)
          \<and> progress_of ev \<noteq> [] \<and> importProgress a' = last (progress_of ev))"
proof -
  have "served env_feed (oneYearAgo env_feed) (maxId run_init) [page1, page2, page3]"
    "hasMore run_init"
    using served_feed by (simp_all add: run_init_def)
  from served_loop [OF this] obtain r where
    "import_loop env_feed (oneYearAgo env_feed) run_init = Some (Inr r)" by blast
  from startImport_returns [OF this] obtain a' where
    a': "startImport env_feed app_init = Some a'" by blast
  from progress_monotone [of env_feed "oneYearAgo env_feed" 2 app_init a'] a'
  show ?thesis by (auto simp: app_init_def)
qed

end
